theory Spec2Isabelle
  imports Complex_Main "HOL-Library.Word"
begin

section \<open>JavaScript values and strings\<close>

text \<open>
  A JavaScript string is a sequence of UTF-16 code units. String literals of the source
  that are plain ASCII are written \<open>js ''...''\<close>; a single code unit is written
  \<open>CU CHR ''x''\<close>.
\<close>

type_synonym codeunit = "16 word"
type_synonym jsstring = "codeunit list"

abbreviation CU :: "char \<Rightarrow> codeunit" where
  "CU c \<equiv> of_char c"

definition js :: "string \<Rightarrow> jsstring" where
  "js s = map of_char s"

text \<open>
  The values that flow through \<open>main.js\<close>. A number carries the exact value of its
  decimal literal, \<open>(-1)^neg * m * 10^e\<close>; the engine rounds that value to an IEEE-754
  double, which matters below only for the truthiness test. An object is the list of its
  own properties in insertion order, without duplicate keys (the engine lists keys that
  are array indices first; nothing below looks at the order).
\<close>

datatype jsval =
    JUndefined
  | JNull
  | JBool bool
  | JNum bool nat int
  | JStr jsstring
  | JArr "jsval list"
  | JObj "(jsstring \<times> jsval) list"

text \<open>
  \<open>ToBoolean\<close> of ECMAScript: \<open>undefined\<close>, \<open>null\<close>, \<open>false\<close>, \<open>+0\<close>,
  \<open>-0\<close> and the empty string are falsy, everything else is truthy. A decimal literal
  denotes zero as a double when its value is zero or rounds to zero (round to nearest, ties
  to even): when \<open>m * 10^e \<le> 2^-1075\<close>, half the smallest subnormal \<open>2^-1074\<close>.
\<close>

fun ToBoolean :: "jsval \<Rightarrow> bool" where
  "ToBoolean JUndefined = False"
| "ToBoolean JNull = False"
| "ToBoolean (JBool b) = b"
| "ToBoolean (JNum neg m e) = (m \<noteq> 0 \<and> (0 \<le> e \<or> (10::int) ^ nat (- e) < int m * 2 ^ 1075))"
| "ToBoolean (JStr s) = (s \<noteq> [])"
| "ToBoolean (JArr vs) = True"
| "ToBoolean (JObj ms) = True"

text \<open>\<open>typeof v === 'object'\<close> holds for objects, arrays and \<open>null\<close>.\<close>

fun typeof_object :: "jsval \<Rightarrow> bool" where
  "typeof_object JNull = True"
| "typeof_object (JArr vs) = True"
| "typeof_object (JObj ms) = True"
| "typeof_object v = False"

text \<open>\<open>typeof v === 'string'\<close>.\<close>

fun typeof_string :: "jsval \<Rightarrow> bool" where
  "typeof_string (JStr s) = True"
| "typeof_string v = False"

text \<open>Property assignment \<open>o[k] = v\<close>: an existing key keeps its place, a new one is appended.\<close>

fun obj_set :: "(jsstring \<times> jsval) list \<Rightarrow> jsstring \<Rightarrow> jsval \<Rightarrow> (jsstring \<times> jsval) list" where
  "obj_set [] k v = [(k, v)]"
| "obj_set ((k', v') # ms) k v = (if k' = k then (k, v) # ms else (k', v') # obj_set ms k v)"

text \<open>Property read \<open>o.k\<close> on any value: \<open>None\<close> stands for an absent property.\<close>

fun get_field :: "jsval \<Rightarrow> jsstring \<Rightarrow> jsval option" where
  "get_field (JObj ms) k = map_of ms k"
| "get_field v k = None"

section \<open>\<open>JSON.parse\<close>\<close>

text \<open>
  \<open>JSON.parse\<close> is a built-in of the engine. It is modelled after the JSON grammar of
  ECMA-404 that ECMAScript prescribes for it: a tokenizer for the six structural
  characters, the three literal names, numbers and strings, with the four whitespace
  characters allowed between tokens, and a pushdown recogniser that builds the value.
  A syntax error is \<open>None\<close>.
\<close>

datatype token =
    TLBrace | TRBrace | TLBracket | TRBracket | TColon | TComma
  | TNull | TTrue | TFalse
  | TNumber bool nat int
  | TString jsstring

definition is_ws :: "codeunit \<Rightarrow> bool" where
  "is_ws c \<longleftrightarrow> c = 0x09 \<or> c = 0x0A \<or> c = 0x0D \<or> c = 0x20"

definition is_digit :: "codeunit \<Rightarrow> bool" where
  "is_digit c \<longleftrightarrow> CU CHR ''0'' \<le> c \<and> c \<le> CU CHR ''9''"

definition digit_val :: "codeunit \<Rightarrow> nat" where
  "digit_val c = unat c - 48"

definition digits_val :: "jsstring \<Rightarrow> nat" where
  "digits_val ds = foldl (\<lambda>acc c. acc * 10 + digit_val c) 0 ds"

definition hex_val :: "codeunit \<Rightarrow> nat option" where
  "hex_val c =
     (if is_digit c then Some (unat c - 48)
      else if CU CHR ''a'' \<le> c \<and> c \<le> CU CHR ''f'' then Some (unat c - 87)
      else if CU CHR ''A'' \<le> c \<and> c \<le> CU CHR ''F'' then Some (unat c - 55)
      else None)"

fun strip_prefix :: "'a list \<Rightarrow> 'a list \<Rightarrow> 'a list option" where
  "strip_prefix [] ys = Some ys"
| "strip_prefix (x # xs) [] = None"
| "strip_prefix (x # xs) (y # ys) = (if x = y then strip_prefix xs ys else None)"

subsection \<open>Numbers\<close>

text \<open>\<open>int = "0" | digit1-9 digit*\<close>\<close>

definition lex_int :: "jsstring \<Rightarrow> (jsstring \<times> jsstring) option" where
  "lex_int cs =
     (case cs of
        [] \<Rightarrow> None
      | c # r \<Rightarrow>
          if c = CU CHR ''0'' then Some ([c], r)
          else if is_digit c then Some (c # takeWhile is_digit r, dropWhile is_digit r)
          else None)"

text \<open>\<open>frac = "." digit+\<close>, optional; the digits after the point, none when there is no point.\<close>

definition lex_frac :: "jsstring \<Rightarrow> (jsstring \<times> jsstring) option" where
  "lex_frac cs =
     (case cs of
        [] \<Rightarrow> Some ([], [])
      | c # r \<Rightarrow>
          if c = CU CHR ''.'' then
            (if takeWhile is_digit r = [] then None
             else Some (takeWhile is_digit r, dropWhile is_digit r))
          else Some ([], cs))"

text \<open>\<open>exp = ("e" | "E") ("+" | "-")? digit+\<close>, optional; the exponent, 0 when there is none.\<close>

definition lex_sign :: "jsstring \<Rightarrow> bool \<times> jsstring" where
  "lex_sign cs =
     (case cs of
        [] \<Rightarrow> (False, [])
      | c # r \<Rightarrow>
          if c = CU CHR ''-'' then (True, r)
          else if c = CU CHR ''+'' then (False, r)
          else (False, cs))"

definition lex_exp :: "jsstring \<Rightarrow> (int \<times> jsstring) option" where
  "lex_exp cs =
     (case cs of
        [] \<Rightarrow> Some (0, [])
      | c # r \<Rightarrow>
          if c = CU CHR ''e'' \<or> c = CU CHR ''E'' then
            (case lex_sign r of (neg, r1) \<Rightarrow>
               if takeWhile is_digit r1 = [] then None
               else Some ((if neg then - int (digits_val (takeWhile is_digit r1))
                           else int (digits_val (takeWhile is_digit r1))),
                          dropWhile is_digit r1))
          else Some (0, cs))"

text \<open>\<open>number = "-"? int frac? exp?\<close>\<close>

definition lex_minus :: "jsstring \<Rightarrow> bool \<times> jsstring" where
  "lex_minus cs =
     (case cs of
        [] \<Rightarrow> (False, [])
      | c # r \<Rightarrow> if c = CU CHR ''-'' then (True, r) else (False, cs))"

definition lex_number :: "jsstring \<Rightarrow> (token \<times> jsstring) option" where
  "lex_number cs =
     (case lex_minus cs of (neg, cs1) \<Rightarrow>
       (case lex_int cs1 of
          None \<Rightarrow> None
        | Some (ip, cs2) \<Rightarrow>
           (case lex_frac cs2 of
              None \<Rightarrow> None
            | Some (fp, cs3) \<Rightarrow>
               (case lex_exp cs3 of
                  None \<Rightarrow> None
                | Some (ex, cs4) \<Rightarrow>
                    Some (TNumber neg (digits_val (ip @ fp)) (ex - int (length fp)), cs4)))))"

subsection \<open>Strings\<close>

text \<open>The single-character escapes \<open>\" \\ \/ \b \f \n \r \t\<close>.\<close>

definition unescape :: "codeunit \<Rightarrow> codeunit option" where
  "unescape c =
     (if c = CU CHR ''\"'' then Some (CU CHR ''\"'')
      else if c = CU CHR 0x5C then Some (CU CHR 0x5C)
      else if c = CU CHR ''/'' then Some (CU CHR ''/'')
      else if c = CU CHR ''b'' then Some 0x08
      else if c = CU CHR ''f'' then Some 0x0C
      else if c = CU CHR ''n'' then Some 0x0A
      else if c = CU CHR ''r'' then Some 0x0D
      else if c = CU CHR ''t'' then Some 0x09
      else None)"

definition hex4 :: "codeunit \<Rightarrow> codeunit \<Rightarrow> codeunit \<Rightarrow> codeunit \<Rightarrow> codeunit option" where
  "hex4 a b c d =
     (case (hex_val a, hex_val b, hex_val c, hex_val d) of
        (Some x, Some y, Some z, Some w) \<Rightarrow> Some (of_nat (((x * 16 + y) * 16 + z) * 16 + w))
      | _ \<Rightarrow> None)"

text \<open>
  The characters after an opening quote, up to and including the closing quote: the
  string's value and the rest of the input. A control character below U+0020 must be
  escaped.
\<close>

fun lex_string :: "jsstring \<Rightarrow> (jsstring \<times> jsstring) option" where
  "lex_string [] = None"
| "lex_string [c] = (if c = CU CHR ''\"'' then Some ([], []) else None)"
| "lex_string (c # e # cs) =
     (if c = CU CHR ''\"'' then Some ([], e # cs)
      else if c = CU CHR 0x5C then
        (if e = CU CHR ''u'' then
           (case cs of
              a # b # c' # d # cs' \<Rightarrow>
                (case hex4 a b c' d of
                   None \<Rightarrow> None
                 | Some u \<Rightarrow>
                     (case lex_string cs' of
                        None \<Rightarrow> None
                      | Some (s, rest) \<Rightarrow> Some (u # s, rest)))
            | _ \<Rightarrow> None)
         else
           (case unescape e of
              None \<Rightarrow> None
            | Some u \<Rightarrow>
                (case lex_string cs of
                   None \<Rightarrow> None
                 | Some (s, rest) \<Rightarrow> Some (u # s, rest))))
      else if c < 0x20 then None
      else
        (case lex_string (e # cs) of
           None \<Rightarrow> None
         | Some (s, rest) \<Rightarrow> Some (c # s, rest)))"

subsection \<open>Tokens\<close>

text \<open>Every lexer returns a suffix of its input, so the tokenizer terminates.\<close>

lemma lex_string_length: "lex_string cs = Some (s, rest) \<Longrightarrow> length rest \<le> length cs"
  by (induction cs arbitrary: s rest rule: lex_string.induct)
     (fastforce split: if_splits list.splits option.splits)+

lemma strip_prefix_length: "strip_prefix p cs = Some rest \<Longrightarrow> length rest \<le> length cs"
  by (induction p cs rule: strip_prefix.induct) (auto split: if_splits)

lemma lex_minus_length: "lex_minus cs = (neg, rest) \<Longrightarrow> length rest \<le> length cs"
  by (auto simp: lex_minus_def split: list.splits if_splits)

lemma lex_sign_length: "lex_sign cs = (neg, rest) \<Longrightarrow> length rest \<le> length cs"
  by (auto simp: lex_sign_def split: list.splits if_splits)

lemma lex_int_length: "lex_int cs = Some (ds, rest) \<Longrightarrow> length rest < length cs"
  by (auto simp: lex_int_def less_Suc_eq_le length_dropWhile_le split: list.splits if_splits)

lemma lex_frac_length: "lex_frac cs = Some (ds, rest) \<Longrightarrow> length rest \<le> length cs"
  by (auto simp: lex_frac_def le_SucI length_dropWhile_le split: list.splits if_splits)

lemma lex_exp_length: "lex_exp cs = Some (e, rest) \<Longrightarrow> length rest \<le> length cs"
proof -
  assume a: "lex_exp cs = Some (e, rest)"
  show ?thesis
  proof (cases cs)
    case Nil
    with a show ?thesis by (simp add: lex_exp_def)
  next
    case (Cons c r)
    obtain neg r1 where s: "lex_sign r = (neg, r1)" by (cases "lex_sign r")
    have "length (dropWhile is_digit r1) \<le> length r1" by (rule length_dropWhile_le)
    with lex_sign_length[OF s] have "length (dropWhile is_digit r1) \<le> length cs"
      using Cons by simp
    with a Cons s show ?thesis
      by (auto simp: lex_exp_def split: if_splits)
  qed
qed

lemma lex_number_length: "lex_number cs = Some (t, rest) \<Longrightarrow> length rest < length cs"
  unfolding lex_number_def
  by (auto split: prod.splits option.splits
           dest!: lex_minus_length lex_int_length lex_frac_length lex_exp_length)

function tokenize :: "jsstring \<Rightarrow> token list option" where
  "tokenize [] = Some []"
| "tokenize (c # cs) =
     (if is_ws c then tokenize cs
      else if c = CU CHR ''{'' then map_option (Cons TLBrace) (tokenize cs)
      else if c = CU CHR ''}'' then map_option (Cons TRBrace) (tokenize cs)
      else if c = CU CHR ''['' then map_option (Cons TLBracket) (tokenize cs)
      else if c = CU CHR '']'' then map_option (Cons TRBracket) (tokenize cs)
      else if c = CU CHR '':'' then map_option (Cons TColon) (tokenize cs)
      else if c = CU CHR '','' then map_option (Cons TComma) (tokenize cs)
      else if c = CU CHR ''\"'' then
        (case lex_string cs of
           None \<Rightarrow> None
         | Some (s, rest) \<Rightarrow> map_option (Cons (TString s)) (tokenize rest))
      else if c = CU CHR ''-'' \<or> is_digit c then
        (case lex_number (c # cs) of
           None \<Rightarrow> None
         | Some (t, rest) \<Rightarrow> map_option (Cons t) (tokenize rest))
      else if c = CU CHR ''n'' then
        (case strip_prefix (js ''ull'') cs of
           None \<Rightarrow> None
         | Some rest \<Rightarrow> map_option (Cons TNull) (tokenize rest))
      else if c = CU CHR ''t'' then
        (case strip_prefix (js ''rue'') cs of
           None \<Rightarrow> None
         | Some rest \<Rightarrow> map_option (Cons TTrue) (tokenize rest))
      else if c = CU CHR ''f'' then
        (case strip_prefix (js ''alse'') cs of
           None \<Rightarrow> None
         | Some rest \<Rightarrow> map_option (Cons TFalse) (tokenize rest))
      else None)"
  by pat_completeness auto
termination
  by (relation "measure length")
     (auto simp: less_Suc_eq_le
           dest: lex_string_length strip_prefix_length lex_number_length)

subsection \<open>Values\<close>

text \<open>
  The recogniser keeps a stack of the arrays and objects that are still open. An open
  array holds its elements so far; an open object holds its members so far and, between a
  key and its value, that key. A duplicate key overwrites the earlier value, as
  \<open>JSON.parse\<close> does.
\<close>

datatype frame =
    FArr "jsval list"
  | FKey "(jsstring \<times> jsval) list"
  | FVal "(jsstring \<times> jsval) list" jsstring

text \<open>What may come next.\<close>

datatype pmode =
    MValue            \<comment> \<open>a value\<close>
  | MValueOrClose     \<comment> \<open>just after \<open>[\<close>: a value or \<open>]\<close>\<close>
  | MKeyOrClose       \<comment> \<open>just after \<open>{\<close>: a key or \<open>}\<close>\<close>
  | MKey              \<comment> \<open>after a comma in an object: a key\<close>
  | MColon            \<comment> \<open>after a key: the colon\<close>
  | MAfter            \<comment> \<open>after a value inside an array or object: a comma or the closing bracket\<close>
  | MDone jsval       \<comment> \<open>the text's value is complete: nothing but the end\<close>

type_synonym pstate = "frame list \<times> pmode"

text \<open>A value is complete: it is the text's value, or goes into the innermost open container.\<close>

fun finish_value :: "jsval \<Rightarrow> frame list \<Rightarrow> pstate option" where
  "finish_value v [] = Some ([], MDone v)"
| "finish_value v (FArr es # st) = Some (FArr (es @ [v]) # st, MAfter)"
| "finish_value v (FVal ms k # st) = Some (FKey (obj_set ms k v) # st, MAfter)"
| "finish_value v (FKey ms # st) = None"

text \<open>The value a scalar token stands for.\<close>

fun scalar :: "token \<Rightarrow> jsval option" where
  "scalar TNull = Some JNull"
| "scalar TTrue = Some (JBool True)"
| "scalar TFalse = Some (JBool False)"
| "scalar (TNumber neg m e) = Some (JNum neg m e)"
| "scalar (TString s) = Some (JStr s)"
| "scalar t = None"

fun begin_value :: "frame list \<Rightarrow> token \<Rightarrow> pstate option" where
  "begin_value st TLBracket = Some (FArr [] # st, MValueOrClose)"
| "begin_value st TLBrace = Some (FKey [] # st, MKeyOrClose)"
| "begin_value st t = (case scalar t of None \<Rightarrow> None | Some v \<Rightarrow> finish_value v st)"

fun begin_key :: "frame list \<Rightarrow> token \<Rightarrow> pstate option" where
  "begin_key (FKey ms # st) (TString k) = Some (FVal ms k # st, MColon)"
| "begin_key st t = None"

fun pstep :: "pstate \<Rightarrow> token \<Rightarrow> pstate option" where
  "pstep (st, MValue) t = begin_value st t"
| "pstep (FArr es # st, MValueOrClose) TRBracket = finish_value (JArr es) st"
| "pstep (st, MValueOrClose) t = begin_value st t"
| "pstep (FKey ms # st, MKeyOrClose) TRBrace = finish_value (JObj ms) st"
| "pstep (st, MKeyOrClose) t = begin_key st t"
| "pstep (st, MKey) t = begin_key st t"
| "pstep (st, MColon) TColon = Some (st, MValue)"
| "pstep (st, MColon) t = None"
| "pstep (FArr es # st, MAfter) TComma = Some (FArr es # st, MValue)"
| "pstep (FKey ms # st, MAfter) TComma = Some (FKey ms # st, MKey)"
| "pstep (FArr es # st, MAfter) TRBracket = finish_value (JArr es) st"
| "pstep (FKey ms # st, MAfter) TRBrace = finish_value (JObj ms) st"
| "pstep (st, MAfter) t = None"
| "pstep (st, MDone v) t = None"

fun prun :: "pstate \<Rightarrow> token list \<Rightarrow> pstate option" where
  "prun q [] = Some q"
| "prun q (t # ts) = (case pstep q t of None \<Rightarrow> None | Some q' \<Rightarrow> prun q' ts)"

definition JSON_parse :: "jsstring \<Rightarrow> jsval option" where
  "JSON_parse s =
     (case tokenize s of
        None \<Rightarrow> None
      | Some ts \<Rightarrow>
          (case prun ([], MValue) ts of
             Some ([], MDone v) \<Rightarrow> Some v
           | _ \<Rightarrow> None))"

section \<open>String built-ins used by \<open>main.js\<close>\<close>

text \<open>\<open>s.indexOf(c)\<close> and \<open>s.lastIndexOf(c)\<close> for a one-character \<open>c\<close>: an index, or -1.\<close>

fun indexOf :: "jsstring \<Rightarrow> codeunit \<Rightarrow> int" where
  "indexOf [] c = - 1"
| "indexOf (x # xs) c =
     (if x = c then 0 else if indexOf xs c = - 1 then - 1 else indexOf xs c + 1)"

fun lastIndexOf :: "jsstring \<Rightarrow> codeunit \<Rightarrow> int" where
  "lastIndexOf [] c = - 1"
| "lastIndexOf (x # xs) c =
     (if lastIndexOf xs c \<noteq> - 1 then lastIndexOf xs c + 1 else if x = c then 0 else - 1)"

text \<open>\<open>s.slice(start, end)\<close>: a negative index counts from the end, both are clamped.\<close>

definition slice :: "jsstring \<Rightarrow> int \<Rightarrow> int \<Rightarrow> jsstring" where
  "slice s start end' =
     (let len = int (length s);
          from = (if start < 0 then max (len + start) 0 else min start len);
          to = (if end' < 0 then max (len + end') 0 else min end' len)
      in take (nat (to - from)) (drop (nat from) s))"

subsection \<open>The two regular expressions\<close>

text \<open>
  Both patterns carry the flag \<open>i\<close> and not the flag \<open>u\<close>. Under that flag a
  character of the input matches an ASCII character of the pattern when their upper-case
  forms agree, and a character outside ASCII is never identified with an ASCII one; so only
  ASCII case folding counts against these patterns.
\<close>

definition ascii_upper :: "codeunit \<Rightarrow> codeunit" where
  "ascii_upper c = (if CU CHR ''a'' \<le> c \<and> c \<le> CU CHR ''z'' then c - 32 else c)"

text \<open>A literal ASCII pattern at the start of the input: the rest of the input after it.\<close>

fun match_lit_ci :: "jsstring \<Rightarrow> jsstring \<Rightarrow> jsstring option" where
  "match_lit_ci [] ys = Some ys"
| "match_lit_ci (p # ps) [] = None"
| "match_lit_ci (p # ps) (y # ys) =
     (if ascii_upper p = ascii_upper y then match_lit_ci ps ys else None)"

text \<open>
  \<open>([\s\S]*?)```\<close> at the start of the input: the lazy group takes the fewest
  characters, of any kind, that a closing fence follows.
\<close>

fun until_fence :: "jsstring \<Rightarrow> jsstring option" where
  "until_fence [] = None"
| "until_fence (c # cs) =
     (case match_lit_ci (js ''```'') (c # cs) of
        Some rest \<Rightarrow> Some []
      | None \<Rightarrow> map_option (Cons c) (until_fence cs))"

text \<open>
  \<open>text.match(/<opener>([\s\S]*?)```/i)\<close>: the start positions are tried from left to
  right; \<open>Some g\<close> is a match whose group 1 is \<open>g\<close>, \<open>None\<close> is \<open>null\<close>.
\<close>

fun fence_match :: "jsstring \<Rightarrow> jsstring \<Rightarrow> jsstring option" where
  "fence_match opener [] =
     (case match_lit_ci opener [] of None \<Rightarrow> None | Some rest \<Rightarrow> until_fence rest)"
| "fence_match opener (c # cs) =
     (case match_lit_ci opener (c # cs) of
        None \<Rightarrow> fence_match opener cs
      | Some rest \<Rightarrow>
          (case until_fence rest of
             None \<Rightarrow> fence_match opener cs
           | Some g \<Rightarrow> Some g))"

section \<open>The reply normalizer: \<open>parseModelReplyToJson\<close>\<close>

text \<open>\<open>tryParse\<close> (main.js 17-23): the parsed value, \<open>null\<close> when \<open>JSON.parse\<close> throws.\<close>

definition tryParse :: "jsstring \<Rightarrow> jsval" where
  "tryParse text = (case JSON_parse text of None \<Rightarrow> JNull | Some v \<Rightarrow> v)"

text \<open>The record \<open>{ raw: reply }\<close>.\<close>

definition raw_record :: "jsval \<Rightarrow> jsval" where
  "raw_record reply = JObj [(js ''raw'', reply)]"

text \<open>
  main.js 8-48. Nothing in the body can throw: \<open>JSON.parse\<close> is called inside
  \<open>tryParse\<close> only, and \<open>match\<close>, \<open>indexOf\<close>, \<open>lastIndexOf\<close> and \<open>slice\<close>
  are total on strings. So the result is a value, not a sum.
\<close>

definition parseModelReplyToJson :: "jsval \<Rightarrow> jsval" where
  "parseModelReplyToJson reply =
     (if ToBoolean reply \<and> typeof_object reply then reply
      else if \<not> ToBoolean reply \<or> \<not> typeof_string reply then raw_record reply
      else
        (case reply of
           JStr s \<Rightarrow>
             (if ToBoolean (tryParse s) then tryParse s
              else
                (let codeBlockMatch =
                       (case fence_match (js ''```json'') s of
                          Some g \<Rightarrow> Some g
                        | None \<Rightarrow> fence_match (js ''```'') s);
                     text = (case codeBlockMatch of Some g \<Rightarrow> g | None \<Rightarrow> s);
                     firstBrace = indexOf text (CU CHR ''{'');
                     lastBrace = lastIndexOf text (CU CHR ''}'')
                 in if firstBrace \<noteq> - 1 \<and> lastBrace \<noteq> - 1 \<and> lastBrace > firstBrace then
                      (let jsonSlice = slice text firstBrace (lastBrace + 1)
                       in if ToBoolean (tryParse jsonSlice) then tryParse jsonSlice
                          else raw_record reply)
                    else raw_record reply))
         | _ \<Rightarrow> raw_record reply))"

section \<open>The document text extractor\<close>

subsection \<open>\<open>path.extname\<close> and \<open>toLowerCase\<close>\<close>

text \<open>
  \<open>extname\<close> of Node's \<open>path\<close> module scans the path from its end. The flag \<open>win32\<close>
  selects the Windows flavour, where the backslash separates too and a drive prefix
  \<open>X:\<close> is skipped.
\<close>

record ext_state =
  startDot :: int
  startPart :: int
  end' :: int
  matchedSlash :: bool
  preDotState :: int

definition isPathSeparator :: "bool \<Rightarrow> codeunit \<Rightarrow> bool" where
  "isPathSeparator win32 code \<longleftrightarrow> code = CU CHR ''/'' \<or> (win32 \<and> code = CU CHR 0x5C)"

definition isWindowsDeviceRoot :: "codeunit \<Rightarrow> bool" where
  "isWindowsDeviceRoot code \<longleftrightarrow>
     (CU CHR ''A'' \<le> code \<and> code \<le> CU CHR ''Z'') \<or> (CU CHR ''a'' \<le> code \<and> code \<le> CU CHR ''z'')"

text \<open>
  The loop \<open>for (i = path.length - 1; i >= start; --i)\<close>; \<open>n\<close> is \<open>i + 1\<close>, and the
  \<open>break\<close> is the branch that does not recur.
\<close>

fun extname_loop :: "bool \<Rightarrow> jsstring \<Rightarrow> nat \<Rightarrow> nat \<Rightarrow> ext_state \<Rightarrow> ext_state" where
  "extname_loop win32 path start 0 st = st"
| "extname_loop win32 path start (Suc i) st =
     (if i < start then st
      else if isPathSeparator win32 (path ! i) then
        (if \<not> matchedSlash st then st\<lparr>startPart := int i + 1\<rparr>
         else extname_loop win32 path start i st)
      else
        (let st1 = (if end' st = - 1 then st\<lparr>end' := int i + 1, matchedSlash := False\<rparr> else st);
             st2 = (if path ! i = CU CHR ''.'' then
                      (if startDot st1 = - 1 then st1\<lparr>startDot := int i\<rparr>
                       else if preDotState st1 \<noteq> 1 then st1\<lparr>preDotState := 1\<rparr>
                       else st1)
                    else if startDot st1 \<noteq> - 1 then st1\<lparr>preDotState := - 1\<rparr>
                    else st1)
         in extname_loop win32 path start i st2))"

definition extname :: "bool \<Rightarrow> jsstring \<Rightarrow> jsstring" where
  "extname win32 path =
     (let start = (if win32 \<and> length path \<ge> 2 \<and> path ! 1 = CU CHR '':''
                      \<and> isWindowsDeviceRoot (path ! 0) then 2 else 0);
          st = extname_loop win32 path start (length path)
                 \<lparr>startDot = - 1, startPart = int start, end' = - 1,
                  matchedSlash = True, preDotState = 0\<rparr>
      in if startDot st = - 1 \<or> end' st = - 1 \<or> preDotState st = 0
            \<or> (preDotState st = 1 \<and> startDot st = end' st - 1 \<and> startDot st = startPart st + 1)
         then []
         else slice path (startDot st) (end' st))"

text \<open>
  \<open>toLowerCase\<close>, on the ASCII letters. The Unicode case mapping of the characters
  outside ASCII is left out: none of them lowers to a character of \<open>.pdf\<close> or \<open>.docx\<close>,
  so the two comparisons below come out the same.
\<close>

definition ascii_lower :: "codeunit \<Rightarrow> codeunit" where
  "ascii_lower c = (if CU CHR ''A'' \<le> c \<and> c \<le> CU CHR ''Z'' then c + 32 else c)"

definition toLowerCase :: "jsstring \<Rightarrow> jsstring" where
  "toLowerCase s = map ascii_lower s"

subsection \<open>The world outside the program\<close>

text \<open>What an \<open>await\<close> can reject with, or a call can throw: one constructor for each place.\<close>

datatype error =
    ReadFileError jsstring      \<comment> \<open>\<open>fs.promises.readFile\<close> rejects\<close>
  | PdfError                    \<comment> \<open>\<open>pdf(buffer)\<close> rejects\<close>
  | MammothError                \<comment> \<open>\<open>mammoth.extractRawText\<close> rejects\<close>
  | ImportError                 \<comment> \<open>\<open>import('node-llama-cpp')\<close> rejects\<close>
  | ModelFileMissing jsstring   \<comment> \<open>the \<open>throw\<close> of \<open>resolveModelPath\<close>, with the path looked at\<close>
  | GetLlamaError
  | LoadModelError
  | CreateContextError
  | NewSessionError             \<comment> \<open>\<open>getSequence\<close> or the constructor of the chat session throws\<close>
  | PromptError                 \<comment> \<open>\<open>chatSession.prompt\<close> rejects\<close>
  | DialogError
  | TypeError                   \<comment> \<open>a method call on \<open>null\<close>\<close>

type_synonym buffer = "8 word list"

datatype llama_model = LlamaModel jsstring

datatype llama_context = LlamaContext llama_model

text \<open>A chat session: the context it is bound to and its conversational history, a list of
  prompts with their replies.\<close>

record chat_session =
  contextSequence :: llama_context
  chatHistory :: "(jsstring \<times> jsstring) list"

text \<open>
  The libraries, the file system, the dialog, the windows and the model are not part of the
  program: they are parameters. \<open>windows i\<close> is the number of open windows when the
  document at index \<open>i\<close> of the batch has been parsed; \<open>session_prompt h p\<close> is what the model
  generates for the prompt \<open>p\<close> after the history \<open>h\<close>.
\<close>

record env =
  win32 :: bool
  readFile :: "jsstring \<Rightarrow> error + buffer"
  pdf :: "buffer \<Rightarrow> error + jsstring"
  extractRawText :: "buffer \<Rightarrow> error + jsstring"
  homedir :: jsstring
  join :: "jsstring \<Rightarrow> jsstring \<Rightarrow> jsstring"
  existsSync :: "jsstring \<Rightarrow> bool"
  mkdirSync :: "jsstring \<Rightarrow> error option"
  import_llama :: "error option"
  getLlama :: "error option"
  loadModel :: "jsstring \<Rightarrow> error option"
  createContext :: "llama_model \<Rightarrow> error option"
  newChatSession :: "llama_context \<Rightarrow> error option"
  session_prompt :: "(jsstring \<times> jsstring) list \<Rightarrow> jsstring \<Rightarrow> error + jsstring"
  showOpenDialog :: "error + bool \<times> jsstring list option"
  windows :: "nat \<Rightarrow> nat"

subsection \<open>\<open>extractTextFromResumeFile\<close>\<close>

text \<open>main.js 50-65. The file is read first, whatever its extension is.\<close>

definition extractTextFromResumeFile :: "env \<Rightarrow> jsstring \<Rightarrow> error + jsstring" where
  "extractTextFromResumeFile env filePath =
     (case readFile env filePath of
        Inl e \<Rightarrow> Inl e
      | Inr buffer \<Rightarrow>
          (let extension = toLowerCase (extname (win32 env) filePath)
           in if extension = js ''.pdf'' then
                (case pdf env buffer of
                   Inl e \<Rightarrow> Inl e
                 | Inr text \<Rightarrow> Inr (if text \<noteq> [] then text else []))
              else if extension = js ''.docx'' then
                (case extractRawText env buffer of
                   Inl e \<Rightarrow> Inl e
                 | Inr value \<Rightarrow> Inr (if value \<noteq> [] then value else []))
              else Inr []))"

section \<open>The inference session\<close>

text \<open>
  What the program does to the world, in order: the third component of the state below.
  \<open>EPrompt h p\<close> is the submission of the prompt \<open>p\<close> to a session whose history is
  \<open>h\<close> at that moment; \<open>ESend path result\<close> is the event \<open>resume-item-parsed\<close>.
\<close>

datatype effect =
    EMkdir jsstring
  | ELoadModel jsstring
  | ECreateContext
  | ENewSession
  | EResetChatHistory
  | EPrompt "(jsstring \<times> jsstring) list" jsstring
  | EConsoleLog jsstring jsval
  | EConsoleError
  | ESend jsstring jsval

text \<open>The three module variables of main.js 67-69, and the effects so far.\<close>

record state =
  llamaModel :: "llama_model option"
  llamaContext :: "llama_context option"
  chatSession :: "chat_session option"
  effects :: "effect list"

definition emit :: "effect \<Rightarrow> state \<Rightarrow> state" where
  "emit e s = s\<lparr>effects := effects s @ [e]\<rparr>"

text \<open>main.js 71-84: a failure to create the directory is logged and swallowed.\<close>

definition ensureUserModelDir :: "env \<Rightarrow> state \<Rightarrow> jsstring \<times> state" where
  "ensureUserModelDir env s =
     (let modelDir = join env (homedir env) (js ''jianli-jiexi-models'')
      in if \<not> existsSync env modelDir then
           (case mkdirSync env modelDir of
              None \<Rightarrow> (modelDir, emit (EMkdir modelDir) s)
            | Some err \<Rightarrow> (modelDir, emit EConsoleError (emit (EMkdir modelDir) s)))
         else (modelDir, s))"

text \<open>main.js 86-95.\<close>

definition resolveModelPath :: "env \<Rightarrow> state \<Rightarrow> (error + jsstring) \<times> state" where
  "resolveModelPath env s =
     (case ensureUserModelDir env s of (userModelDir, s1) \<Rightarrow>
        (let userModelPath = join env userModelDir (js ''Qwen3-4B-IQ4_NL.gguf'')
         in if \<not> existsSync env userModelPath then (Inl (ModelFileMissing userModelPath), s1)
            else (Inr userModelPath, s1)))"

text \<open>\<open>!llamaModel || !llamaContext || !chatSession\<close> is \<open>\<not> loaded\<close>.\<close>

definition loaded :: "state \<Rightarrow> bool" where
  "loaded s \<longleftrightarrow> llamaModel s \<noteq> None \<and> llamaContext s \<noteq> None \<and> chatSession s \<noteq> None"

text \<open>
  main.js 97-117. Each assignment to a module variable happens as soon as its right-hand
  side has been computed, so a failure later on leaves the earlier ones in place.
\<close>

definition initModel :: "env \<Rightarrow> state \<Rightarrow> (error + unit) \<times> state" where
  "initModel env s =
     (if loaded s then (Inr (), s)
      else
        (case import_llama env of
           Some e \<Rightarrow> (Inl e, s)
         | None \<Rightarrow>
        (case resolveModelPath env s of
           (Inl e, s1) \<Rightarrow> (Inl e, s1)
         | (Inr modelPath, s1) \<Rightarrow>
        (case getLlama env of
           Some e \<Rightarrow> (Inl e, s1)
         | None \<Rightarrow>
        (case loadModel env modelPath of
           Some e \<Rightarrow> (Inl e, emit (ELoadModel modelPath) s1)
         | None \<Rightarrow>
        (let s2 = (emit (ELoadModel modelPath) s1)\<lparr>llamaModel := Some (LlamaModel modelPath)\<rparr>
         in case createContext env (LlamaModel modelPath) of
              Some e \<Rightarrow> (Inl e, emit ECreateContext s2)
            | None \<Rightarrow>
        (let s3 = (emit ECreateContext s2)
                     \<lparr>llamaContext := Some (LlamaContext (LlamaModel modelPath))\<rparr>
         in case newChatSession env (LlamaContext (LlamaModel modelPath)) of
              Some e \<Rightarrow> (Inl e, emit ENewSession s3)
            | None \<Rightarrow>
                (Inr (),
                 (emit ENewSession s3)
                   \<lparr>chatSession :=
                      Some \<lparr>contextSequence = LlamaContext (LlamaModel modelPath),
                            chatHistory = []\<rparr>\<rparr>))))))))"

text \<open>The number of calls of \<open>llama.loadModel\<close> so far.\<close>

definition model_loads :: "state \<Rightarrow> nat" where
  "model_loads s = length (filter (\<lambda>e. case e of ELoadModel p \<Rightarrow> True | _ \<Rightarrow> False) (effects s))"

section \<open>The batch: the handler of \<open>parse-resume-pdf\<close>\<close>

text \<open>The template literal of main.js 269-276, as UTF-16 code units, before and after
  \<open>${text}\<close>.\<close>

definition PROMPT_HEAD :: jsstring where
  "PROMPT_HEAD =
     [0x4F60, 0x662F, 0x4E00, 0x4E2A, 0x4E2D, 0x6587, 0x7B80, 0x5386, 0x89E3, 0x6790, 0x52A9, 0x624B,
      0x3002, 0x8BF7, 0x4ECE, 0x4E0B, 0x9762, 0x7684, 0x7B80, 0x5386, 0x6587, 0x672C, 0x4E2D, 0x63D0,
      0x53D6, 0x5019, 0x9009, 0x4EBA, 0x7684, 0x59D3, 0x540D, 0x3001, 0x6027, 0x522B, 0x3001, 0x5E74,
      0x9F84, 0x3001, 0x6700, 0x9AD8, 0x5B66, 0x5386, 0x3001, 0x624B, 0x673A, 0x53F7, 0x7801, 0x548C,
      0x90AE, 0x7BB1, 0x5730, 0x5740, 0xFF0C, 0x5E76, 0x4E25, 0x683C, 0x6309, 0x7167, 0x4EE5, 0x4E0B,
      0x0020, 0x004A, 0x0053, 0x004F, 0x004E, 0x0020, 0x683C, 0x5F0F, 0x8FD4, 0x56DE, 0xFF1A, 0x000A,
      0x000A, 0x007B, 0x000A, 0x0020, 0x0020, 0x0022, 0x006E, 0x0061, 0x006D, 0x0065, 0x0022, 0x003A,
      0x0020, 0x0022, 0x59D3, 0x540D, 0x6216, 0x006E, 0x0075, 0x006C, 0x006C, 0x0022, 0x002C, 0x000A,
      0x0020, 0x0020, 0x0022, 0x0067, 0x0065, 0x006E, 0x0064, 0x0065, 0x0072, 0x0022, 0x003A, 0x0020,
      0x0022, 0x6027, 0x522B, 0x5B57, 0x7B26, 0x4E32, 0xFF08, 0x0022, 0x7537, 0x0022, 0x3001, 0x0022,
      0x5973, 0x0022, 0x0020, 0x6216, 0x0020, 0x006E, 0x0075, 0x006C, 0x006C, 0xFF09, 0x0022, 0x002C,
      0x000A, 0x0020, 0x0020, 0x0022, 0x0061, 0x0067, 0x0065, 0x0022, 0x003A, 0x0020, 0x5E74, 0x9F84,
      0x6570, 0x5B57, 0x6216, 0x006E, 0x0075, 0x006C, 0x006C, 0x002C, 0x000A, 0x0020, 0x0020, 0x0022,
      0x0065, 0x0064, 0x0075, 0x0063, 0x0061, 0x0074, 0x0069, 0x006F, 0x006E, 0x0022, 0x003A, 0x0020,
      0x0022, 0x6700, 0x9AD8, 0x5B66, 0x5386, 0x5B57, 0x7B26, 0x4E32, 0xFF08, 0x5982, 0x0022, 0x5927,
      0x4E13, 0x0022, 0x3001, 0x0022, 0x672C, 0x79D1, 0x0022, 0x3001, 0x0022, 0x7855, 0x58EB, 0x0022,
      0xFF0C, 0x6216, 0x0020, 0x006E, 0x0075, 0x006C, 0x006C, 0xFF09, 0x0022, 0x002C, 0x000A, 0x0020,
      0x0020, 0x0022, 0x0070, 0x0068, 0x006F, 0x006E, 0x0065, 0x0022, 0x003A, 0x0020, 0x0022, 0x624B,
      0x673A, 0x53F7, 0x5B57, 0x7B26, 0x4E32, 0x6216, 0x006E, 0x0075, 0x006C, 0x006C, 0x0022, 0x002C,
      0x000A, 0x0020, 0x0020, 0x0022, 0x0065, 0x006D, 0x0061, 0x0069, 0x006C, 0x0022, 0x003A, 0x0020,
      0x0022, 0x90AE, 0x7BB1, 0x5B57, 0x7B26, 0x4E32, 0x6216, 0x006E, 0x0075, 0x006C, 0x006C, 0x0022,
      0x000A, 0x007D, 0x000A, 0x000A, 0x4E0D, 0x8981, 0x8FD4, 0x56DE, 0x4EFB, 0x4F55, 0x89E3, 0x91CA,
      0x6027, 0x6587, 0x5B57, 0xFF0C, 0x53EA, 0x8FD4, 0x56DE, 0x0020, 0x004A, 0x0053, 0x004F, 0x004E,
      0x002C, 0x91CD, 0x8981, 0x58F0, 0x660E, 0xFF0C, 0x5982, 0x679C, 0x627E, 0x4E0D, 0x5230, 0x5BF9,
      0x5E94, 0x7684, 0x5185, 0x5BB9, 0x5C31, 0x586B, 0x5165, 0x006E, 0x0075, 0x006C, 0x006C, 0x002C,
      0x5E74, 0x9F84, 0x5FC5, 0x987B, 0x6709, 0x660E, 0x786E, 0x7684, 0x0078, 0x0078, 0x5C81, 0x6216,
      0x8005, 0x5E74, 0x9F84, 0xFF1A, 0x0078, 0x0078, 0x0078, 0x5C81, 0xFF0C, 0x624D, 0x80FD, 0x586B,
      0x5165, 0xFF0C, 0x4E0D, 0x8981, 0x8003, 0x8651, 0x51FA, 0x751F, 0x65E5, 0x671F, 0xFF0C, 0x6027,
      0x522B, 0x5FC5, 0x987B, 0x6709, 0x660E, 0x786E, 0x6587, 0x5B57, 0x624D, 0x80FD, 0x5199, 0x5165,
      0xFF0C, 0x4E0D, 0x80FD, 0x9760, 0x63A8, 0x65AD, 0x3002, 0x000A, 0x000A, 0x002D, 0x002D, 0x002D,
      0x0020, 0x7B80, 0x5386, 0x6587, 0x672C, 0x5F00, 0x59CB, 0x0020, 0x002D, 0x002D, 0x002D, 0x000A]"

definition PROMPT_TAIL :: jsstring where
  "PROMPT_TAIL =
     [0x000A, 0x002D, 0x002D, 0x002D, 0x0020, 0x7B80, 0x5386, 0x6587, 0x672C, 0x7ED3, 0x675F, 0x0020,
      0x002D, 0x002D, 0x002D]"

definition buildPrompt :: "jsstring \<Rightarrow> jsstring" where
  "buildPrompt text = PROMPT_HEAD @ text @ PROMPT_TAIL"

text \<open>
  The body of the loop of main.js 266-296 for one file, and the loop. An error leaves the
  loop at once: there is no \<open>try\<close> inside it. \<open>i\<close> is the index of the file in the batch.
\<close>

definition process_file :: "env \<Rightarrow> nat \<Rightarrow> jsstring \<Rightarrow> state \<Rightarrow> (error + unit) \<times> state" where
  "process_file env i filePath s =
     (case extractTextFromResumeFile env filePath of
        Inl e \<Rightarrow> (Inl e, s)
      | Inr text \<Rightarrow>
          (let prompt = buildPrompt text
           in case chatSession s of
                None \<Rightarrow> (Inl TypeError, s)
              | Some cs \<Rightarrow>
                  (let cs1 = cs\<lparr>chatHistory := []\<rparr>;
                       s1 = (emit EResetChatHistory s)\<lparr>chatSession := Some cs1\<rparr>
                   in case session_prompt env (chatHistory cs1) prompt of
                        Inl e \<Rightarrow> (Inl e, emit (EPrompt (chatHistory cs1) prompt) s1)
                      | Inr reply \<Rightarrow>
                          (let s2 = (emit (EPrompt (chatHistory cs1) prompt) s1)
                                      \<lparr>chatSession :=
                                         Some (cs1\<lparr>chatHistory := chatHistory cs1 @ [(prompt, reply)]\<rparr>)\<rparr>;
                               parsed = parseModelReplyToJson (JStr reply);
                               s3 = emit (EConsoleLog filePath parsed) s2
                           in if windows env i > 0 then (Inr (), emit (ESend filePath parsed) s3)
                              else (Inr (), s3)))))"

fun process_files :: "env \<Rightarrow> nat \<Rightarrow> jsstring list \<Rightarrow> state \<Rightarrow> (error + unit) \<times> state" where
  "process_files env i [] s = (Inr (), s)"
| "process_files env i (filePath # rest) s =
     (case process_file env i filePath s of
        (Inl e, s') \<Rightarrow> (Inl e, s')
      | (Inr u, s') \<Rightarrow> process_files env (Suc i) rest s')"

text \<open>What the handler resolves with: \<open>{ canceled: true }\<close> or \<open>{ canceled: false }\<close>.\<close>

datatype handler_result = Canceled | Completed

text \<open>
  main.js 245-260: the paths to work on. The argument is \<open>None\<close> when it is not an array.
  Without paths the open dialog is shown; \<open>Inr None\<close> is the early \<open>return\<close>.
\<close>

definition choose_paths :: "env \<Rightarrow> jsstring list option \<Rightarrow> error + jsstring list option" where
  "choose_paths env filePathsFromRenderer =
     (if filePathsFromRenderer = None \<or> filePathsFromRenderer = Some [] then
        (case showOpenDialog env of
           Inl e \<Rightarrow> Inl e
         | Inr (canceled, dialogPaths) \<Rightarrow>
             if canceled \<or> dialogPaths = None \<or> dialogPaths = Some [] then Inr None
             else Inr dialogPaths)
      else Inr filePathsFromRenderer)"

text \<open>main.js 243-305, inside the \<open>try\<close>.\<close>

definition parse_resume_pdf_body ::
  "env \<Rightarrow> state \<Rightarrow> jsstring list option \<Rightarrow> (error + handler_result) \<times> state" where
  "parse_resume_pdf_body env s filePathsFromRenderer =
     (case choose_paths env filePathsFromRenderer of
        Inl e \<Rightarrow> (Inl e, s)
      | Inr None \<Rightarrow> (Inr Canceled, s)
      | Inr (Some filePaths) \<Rightarrow>
          (case (if \<not> loaded s then initModel env s else (Inr (), s)) of
             (Inl e, s1) \<Rightarrow> (Inl e, s1)
           | (Inr u, s1) \<Rightarrow>
               (case process_files env 0 filePaths s1 of
                  (Inl e, s2) \<Rightarrow> (Inl e, s2)
                | (Inr u', s2) \<Rightarrow> (Inr Completed, s2))))"

text \<open>The \<open>catch\<close> logs the error and throws it again.\<close>

definition parse_resume_pdf ::
  "env \<Rightarrow> state \<Rightarrow> jsstring list option \<Rightarrow> (error + handler_result) \<times> state" where
  "parse_resume_pdf env s filePathsFromRenderer =
     (case parse_resume_pdf_body env s filePathsFromRenderer of
        (Inl e, s') \<Rightarrow> (Inl e, emit EConsoleError s')
      | (Inr r, s') \<Rightarrow> (Inr r, s'))"

text \<open>The \<open>resume-item-parsed\<close> events among the effects, in order.\<close>

fun sent :: "effect list \<Rightarrow> (jsstring \<times> jsval) list" where
  "sent [] = []"
| "sent (ESend filePath result # es) = (filePath, result) # sent es"
| "sent (e # es) = sent es"

section \<open>Notions used in the statements and proofs\<close>

text \<open>The text that main.js 30-35 leaves in \<open>text\<close>: the group of the first json-tagged
  fence, else of the first fence, else the reply.\<close>

definition fence_stripped :: "jsstring \<Rightarrow> jsstring" where
  "fence_stripped s =
     (case fence_match (js ''```json'') s of
        Some g \<Rightarrow> g
      | None \<Rightarrow> (case fence_match (js ''```'') s of Some g \<Rightarrow> g | None \<Rightarrow> s))"

text \<open>A record-shaped value is an object.\<close>

fun is_record :: "jsval \<Rightarrow> bool" where
  "is_record (JObj ms) = True"
| "is_record v = False"

text \<open>The six fields of the schema in the prompt.\<close>

definition resume_fields :: "jsstring list" where
  "resume_fields = [js ''name'', js ''gender'', js ''age'', js ''education'', js ''phone'', js ''email'']"

text \<open>Arrays and objects, the values that open with a bracket.\<close>

fun is_container :: "jsval \<Rightarrow> bool" where
  "is_container (JArr vs) = True"
| "is_container (JObj ms) = True"
| "is_container v = False"

text \<open>The characters a number token is made of.\<close>

definition numch :: "codeunit \<Rightarrow> bool" where
  "numch c \<longleftrightarrow> is_digit c \<or> c = CU CHR ''-'' \<or> c = CU CHR ''+'' \<or> c = CU CHR ''.''
                \<or> c = CU CHR ''e'' \<or> c = CU CHR ''E''"

text \<open>The tokens of the falsy JSON values; no other token stands for one.\<close>

fun falsy_token :: "token \<Rightarrow> bool" where
  "falsy_token TNull = True"
| "falsy_token TFalse = True"
| "falsy_token (TNumber neg m e) = True"
| "falsy_token (TString s) = (s = [])"
| "falsy_token t = False"

text \<open>Any character but the opening brace.\<close>

definition plain :: "codeunit \<Rightarrow> bool" where
  "plain c \<longleftrightarrow> c \<noteq> CU CHR ''{''"

text \<open>Replies used as examples.\<close>

definition reply_fenced_array :: jsstring where
  "reply_fenced_array = js ''```json [1] ```''"

definition reply_record :: jsstring where
  "reply_record = js ''{\"name\": \"Zhang San\", \"gender\": null, \"age\": 30, \"education\": null, \"phone\": \"13800000000\", \"email\": null}''"

definition reply_fenced_record :: jsstring where
  "reply_fenced_record = js ''Sure: ```json {\"age\": 30} ``` bye''"

definition reply_prose :: jsstring where
  "reply_prose = js ''I could not read this resume.''"

text \<open>Prompts and events among the effects.\<close>

fun is_prompt :: "effect \<Rightarrow> bool" where
  "is_prompt (EPrompt h p) = True"
| "is_prompt e = False"

fun is_send :: "effect \<Rightarrow> bool" where
  "is_send (ESend p r) = True"
| "is_send e = False"

text \<open>Every prompt in the list comes right after a reset and finds an empty history.\<close>

definition fresh_prompts :: "effect list \<Rightarrow> bool" where
  "fresh_prompts es \<longleftrightarrow>
     (\<forall>k<length es. \<forall>h p. es ! k = EPrompt h p \<longrightarrow>
        h = [] \<and> 0 < k \<and> es ! (k - 1) = EResetChatHistory)"

text \<open>Effects with no prompt and no event among them.\<close>

definition is_session_free :: "effect list \<Rightarrow> bool" where
  "is_session_free es \<longleftrightarrow> (\<forall>e\<in>set es. \<not> is_prompt e \<and> \<not> is_send e)"

text \<open>
  The record of one document, as a function of that document alone: its text, the reply of
  the model to its prompt on an empty history, normalized. \<open>None\<close> when the extraction or
  the model fails.
\<close>

definition document_result :: "env \<Rightarrow> jsstring \<Rightarrow> jsval option" where
  "document_result env filePath =
     (case extractTextFromResumeFile env filePath of
        Inl e \<Rightarrow> None
      | Inr text \<Rightarrow>
          (case session_prompt env [] (buildPrompt text) of
             Inl e \<Rightarrow> None
           | Inr reply \<Rightarrow> Some (parseModelReplyToJson (JStr reply))))"

text \<open>Two extensions are equal, letter case aside.\<close>

definition ci_equal :: "jsstring \<Rightarrow> jsstring \<Rightarrow> bool" where
  "ci_equal a b \<longleftrightarrow> map ascii_upper a = map ascii_upper b"

text \<open>The state at startup: nothing loaded, nothing done.\<close>

definition initial_state :: state where
  "initial_state = \<lparr>llamaModel = None, llamaContext = None, chatSession = None, effects = []\<rparr>"

text \<open>
  Worlds used as examples. In the first everything works: every file is readable (and
  empty), both decoders return a text, the model file is there, the model answers every
  prompt with \<open>{}\<close>, and a window is open.
\<close>

definition env_ok :: env where
  "env_ok =
     \<lparr>win32 = False,
      readFile = (\<lambda>p. Inr []),
      pdf = (\<lambda>b. Inr (js ''resume text'')),
      extractRawText = (\<lambda>b. Inr (js ''resume text'')),
      homedir = js ''/home/u'',
      join = (\<lambda>a b. a @ js ''/'' @ b),
      existsSync = (\<lambda>p. True),
      mkdirSync = (\<lambda>p. None),
      import_llama = None,
      getLlama = None,
      loadModel = (\<lambda>p. None),
      createContext = (\<lambda>m. None),
      newChatSession = (\<lambda>c. None),
      session_prompt = (\<lambda>h p. Inr (js ''{}'')),
      showOpenDialog = Inr (True, None),
      windows = (\<lambda>i. 1)\<rparr>"

text \<open>The same world, where the file \<open>b.pdf\<close> cannot be read.\<close>

definition env_unreadable :: env where
  "env_unreadable =
     env_ok\<lparr>readFile := (\<lambda>p. if p = js ''b.pdf'' then Inl (ReadFileError p) else Inr [])\<rparr>"

text \<open>The same world, where no file can be read.\<close>

definition env_no_files :: env where
  "env_no_files = env_ok\<lparr>readFile := (\<lambda>p. Inl (ReadFileError p))\<rparr>"

text \<open>The same world, with no window open.\<close>

definition env_no_window :: env where
  "env_no_window = env_ok\<lparr>windows := (\<lambda>i. 0)\<rparr>"

text \<open>The same world, where the model fails on every prompt.\<close>

definition env_model_fails :: env where
  "env_model_fails = env_ok\<lparr>session_prompt := (\<lambda>h p. Inl PromptError)\<rparr>"

text \<open>A batch of three files.\<close>

definition three_files :: "jsstring list" where
  "three_files = [js ''a.pdf'', js ''b.pdf'', js ''c.docx'']"

section \<open>Lemmas\<close>

subsection \<open>Indices and slices\<close>

text \<open>The conditions on the two indices say that the text has a first opening brace before its last
  closing brace, and the slice is the text between them, braces included.\<close>

lemma indexOf_ge: "- 1 \<le> indexOf t c"
  by (induction t) auto

lemma indexOf_absent: "indexOf t c = - 1 \<longleftrightarrow> c \<notin> set t"
proof (induction t)
  case Nil
  show ?case by simp
next
  case (Cons x t)
  have "indexOf t c + 1 \<noteq> - 1" using indexOf_ge [of t c] by arith
  with Cons show ?case by auto
qed

lemma indexOf_first: "c \<notin> set pre \<Longrightarrow> indexOf (pre @ c # rest) c = int (length pre)"
proof (induction pre)
  case Nil
  show ?case by simp
next
  case (Cons x pre)
  then show ?case by auto
qed

lemma lastIndexOf_ge: "- 1 \<le> lastIndexOf t c"
  by (induction t) auto

lemma lastIndexOf_absent: "lastIndexOf t c = - 1 \<longleftrightarrow> c \<notin> set t"
proof (induction t)
  case Nil
  show ?case by simp
next
  case (Cons x t)
  have "lastIndexOf t c + 1 \<noteq> - 1" using lastIndexOf_ge [of t c] by arith
  with Cons show ?case by auto
qed

lemma lastIndexOf_last: "c \<notin> set post \<Longrightarrow> lastIndexOf (xs @ c # post) c = int (length xs)"
proof (induction xs)
  case Nil
  then show ?case by (simp add: lastIndexOf_absent)
next
  case (Cons x xs)
  then show ?case using lastIndexOf_ge [of "xs @ c # post" c] by simp
qed

lemma slice_span:
  "t = pre @ mid @ post \<Longrightarrow> i = int (length pre) \<Longrightarrow> j = int (length pre + length mid)
     \<Longrightarrow> slice t i j = mid"
  by (simp add: slice_def Let_def min_def)

lemma brace_span_decompose:
  assumes "indexOf t a \<noteq> - 1" and "lastIndexOf t b \<noteq> - 1" and "lastIndexOf t b > indexOf t a"
  shows "\<exists>pre mid post. t = pre @ a # mid @ b # post \<and> a \<notin> set pre \<and> b \<notin> set post
           \<and> slice t (indexOf t a) (lastIndexOf t b + 1) = a # mid @ [b]"
proof -
  from assms(1) have "a \<in> set t" by (simp add: indexOf_absent)
  then obtain pre r where t: "t = pre @ a # r" and pre: "a \<notin> set pre"
    by (auto dest: split_list_first)
  from assms(2) have "b \<in> set t" by (simp add: lastIndexOf_absent)
  then obtain xs post where t': "t = xs @ b # post" and post: "b \<notin> set post"
    by (auto dest: split_list_last)
  have i: "indexOf t a = int (length pre)" using t pre indexOf_first by simp
  have l: "lastIndexOf t b = int (length xs)" using t' post lastIndexOf_last by simp
  from assms(3) i l have lt: "length pre < length xs" by simp
  have "take (length xs) t = xs" using t' by simp
  moreover have "take (length xs) t = pre @ a # take (length xs - Suc (length pre)) r"
    using t lt by (simp add: take_Cons')
  ultimately have xs: "xs = pre @ a # take (length xs - Suc (length pre)) r" by simp
  define mid where "mid = take (length xs - Suc (length pre)) r"
  have xs': "xs = pre @ a # mid" using xs mid_def by simp
  have decomp: "t = pre @ a # mid @ b # post" using t' xs' by simp
  have "slice t (indexOf t a) (lastIndexOf t b + 1) = a # mid @ [b]"
  proof (rule slice_span)
    show "t = pre @ (a # mid @ [b]) @ post" using decomp by simp
    show "indexOf t a = int (length pre)" by (rule i)
    show "lastIndexOf t b + 1 = int (length pre + length (a # mid @ [b]))" using l xs' by simp
  qed
  with decomp pre post show ?thesis by blast
qed

lemma brace_span_compose:
  assumes "t = pre @ a # mid @ b # post" and "a \<notin> set pre" and "b \<notin> set post"
  shows "indexOf t a \<noteq> - 1 \<and> lastIndexOf t b \<noteq> - 1 \<and> lastIndexOf t b > indexOf t a
           \<and> slice t (indexOf t a) (lastIndexOf t b + 1) = a # mid @ [b]"
proof -
  have i: "indexOf t a = int (length pre)" using assms(1,2) indexOf_first by simp
  have "t = (pre @ a # mid) @ b # post" using assms(1) by simp
  then have l: "lastIndexOf t b = int (length (pre @ a # mid))"
    using assms(3) lastIndexOf_last by metis
  have "slice t (indexOf t a) (lastIndexOf t b + 1) = a # mid @ [b]"
  proof (rule slice_span)
    show "t = pre @ (a # mid @ [b]) @ post" using assms(1) by simp
    show "indexOf t a = int (length pre)" by (rule i)
    show "lastIndexOf t b + 1 = int (length pre + length (a # mid @ [b]))" using l by simp
  qed
  with i l show ?thesis by simp
qed

subsection \<open>Fences\<close>

text \<open>A fence match returns a contiguous part of the text, followed by a closing fence.\<close>

lemma match_lit_ci_split:
  "match_lit_ci p ys = Some rest \<Longrightarrow>
     \<exists>m. ys = m @ rest \<and> map ascii_upper m = map ascii_upper p"
proof (induction p ys rule: match_lit_ci.induct)
  case (1 ys)
  then show ?case by simp
next
  case (2 p ps)
  then show ?case by simp
next
  case (3 p ps y ys)
  from "3.prems" have eq: "ascii_upper p = ascii_upper y" and r: "match_lit_ci ps ys = Some rest"
    by (auto split: if_splits)
  from "3.IH" [OF eq r] obtain m where "ys = m @ rest" "map ascii_upper m = map ascii_upper ps"
    by blast
  then have "y # ys = (y # m) @ rest \<and> map ascii_upper (y # m) = map ascii_upper (p # ps)"
    using eq by simp
  then show ?case by blast
qed

lemma backtick_upper: "ascii_upper c = 0x60 \<longleftrightarrow> c = 0x60"
  unfolding ascii_upper_def
  by (auto simp: word_le_def word_less_def uint_word_ariths split: if_splits)

lemma match_fence_exact: "match_lit_ci (js ''```'') ys = Some rest \<Longrightarrow> ys = js ''```'' @ rest"
proof -
  assume "match_lit_ci (js ''```'') ys = Some rest"
  then obtain m where m: "ys = m @ rest" "map ascii_upper m = map ascii_upper (js ''```'')"
    using match_lit_ci_split by blast
  from m(2) have "map ascii_upper m = [0x60, 0x60, 0x60]"
    by (simp add: js_def ascii_upper_def)
  then have "m = [0x60, 0x60, 0x60]"
    by (auto simp: map_eq_Cons_conv backtick_upper)
  then show ?thesis using m(1) by (simp add: js_def)
qed

lemma until_fence_split: "until_fence r = Some g \<Longrightarrow> \<exists>post. r = g @ js ''```'' @ post"
proof (induction r arbitrary: g)
  case Nil
  then show ?case by simp
next
  case (Cons c cs)
  show ?case
  proof (cases "match_lit_ci (js ''```'') (c # cs)")
    case None
    with Cons.prems obtain g' where g': "until_fence cs = Some g'" "g = c # g'"
      by auto
    from Cons.IH [OF g'(1)] obtain post where "cs = g' @ js ''```'' @ post" by blast
    then have "c # cs = g @ js ''```'' @ post" using g'(2) by simp
    then show ?thesis by blast
  next
    case (Some rest)
    with Cons.prems have "g = []" by simp
    moreover from Some have "c # cs = js ''```'' @ rest" by (rule match_fence_exact)
    ultimately show ?thesis by auto
  qed
qed

lemma fence_match_split:
  "fence_match opener s = Some g \<Longrightarrow>
     \<exists>pre m post. s = pre @ m @ g @ js ''```'' @ post \<and> map ascii_upper m = map ascii_upper opener"
proof (induction opener s rule: fence_match.induct)
  case (1 opener)
  then obtain rest where r: "match_lit_ci opener [] = Some rest" "until_fence rest = Some g"
    by (auto split: option.splits)
  from match_lit_ci_split [OF r(1)] obtain m where
    m: "[] = m @ rest" "map ascii_upper m = map ascii_upper opener" by blast
  from until_fence_split [OF r(2)] obtain post where "rest = g @ js ''```'' @ post" by blast
  with m have "[] = [] @ m @ g @ js ''```'' @ post \<and> map ascii_upper m = map ascii_upper opener"
    by simp
  then show ?case by blast
next
  case (2 opener c cs)
  show ?case
  proof (cases "match_lit_ci opener (c # cs)")
    case None
    with "2.prems" have "fence_match opener cs = Some g" by simp
    from "2.IH"(1) [OF None this] obtain pre m post where
      "cs = pre @ m @ g @ js ''```'' @ post" "map ascii_upper m = map ascii_upper opener" by blast
    then have "c # cs = (c # pre) @ m @ g @ js ''```'' @ post \<and> map ascii_upper m = map ascii_upper opener"
      by simp
    then show ?thesis by blast
  next
    case (Some rest)
    show ?thesis
    proof (cases "until_fence rest")
      case None
      with Some "2.prems" have "fence_match opener cs = Some g" by simp
      from "2.IH"(2) [OF Some None this] obtain pre m post where
        "cs = pre @ m @ g @ js ''```'' @ post" "map ascii_upper m = map ascii_upper opener" by blast
      then have "c # cs = (c # pre) @ m @ g @ js ''```'' @ post \<and> map ascii_upper m = map ascii_upper opener"
        by simp
      then show ?thesis by blast
    next
      case (Some g')
      with \<open>match_lit_ci opener (c # cs) = Some rest\<close> "2.prems" have gg: "g' = g" by simp
      from match_lit_ci_split [OF \<open>match_lit_ci opener (c # cs) = Some rest\<close>] obtain m where
        m: "c # cs = m @ rest" "map ascii_upper m = map ascii_upper opener" by blast
      from until_fence_split [OF Some] obtain post where "rest = g' @ js ''```'' @ post" by blast
      with m gg have "c # cs = [] @ m @ g @ js ''```'' @ post \<and> map ascii_upper m = map ascii_upper opener"
        by simp
      then show ?thesis by blast
    qed
  qed
qed

lemma fence_match_set: "fence_match opener s = Some g \<Longrightarrow> set g \<subseteq> set s"
  by (drule fence_match_split) auto

subsection \<open>Texts of scalar values\<close>

text \<open>A text whose value is not an array or object is one scalar token.\<close>

lemma finish_value_empty: "finish_value v st = Some ([], m) \<Longrightarrow> st = [] \<and> m = MDone v"
  by (cases "(v, st)" rule: finish_value.cases) auto

lemma begin_value_nonempty: "begin_value (f # st) t \<noteq> Some ([], m)"
  by (cases "(f # st, t)" rule: begin_value.cases) (auto dest: finish_value_empty split: option.splits)

lemma begin_key_nonempty: "begin_key st t \<noteq> Some ([], m)"
  by (cases "(st, t)" rule: begin_key.cases) auto

lemma pstep_pop:
  assumes "pstep (f # st, m) t = Some ([], m')"
  shows "\<exists>v. m' = MDone v \<and> is_container v"
  using assms
  by (cases "((f # st, m), t)" rule: pstep.cases)
     (auto simp: begin_value_nonempty begin_key_nonempty dest: finish_value_empty)

lemma prun_done: "prun (st, MDone v) ts = Some q \<Longrightarrow> ts = [] \<and> q = (st, MDone v)"
  by (cases ts) auto

lemma prun_container:
  "st \<noteq> [] \<Longrightarrow> prun (st, m) ts = Some ([], MDone v) \<Longrightarrow> is_container v"
proof (induction ts arbitrary: st m)
  case Nil
  then show ?case by simp
next
  case (Cons t ts)
  from Cons.prems(2) obtain st' m' where
    step: "pstep (st, m) t = Some (st', m')" and run: "prun (st', m') ts = Some ([], MDone v)"
    by (auto split: option.splits)
  show ?case
  proof (cases "st' = []")
    case True
    from Cons.prems(1) obtain f st0 where "st = f # st0" by (cases st) auto
    with pstep_pop [of f st0 m t m'] step True obtain w where w: "m' = MDone w" "is_container w"
      by blast
    with run True prun_done [of "[]" w ts "([], MDone v)"] show ?thesis by auto
  next
    case False
    from Cons.IH [OF False run] show ?thesis .
  qed
qed

lemma prun_scalar:
  assumes "prun ([], MValue) ts = Some ([], MDone v)" and "\<not> is_container v"
  shows "\<exists>t. ts = [t] \<and> scalar t = Some v"
proof (cases ts)
  case Nil
  with assms(1) show ?thesis by simp
next
  case (Cons t ts')
  with assms(1) obtain st' m' where
    step: "begin_value [] t = Some (st', m')" and run: "prun (st', m') ts' = Some ([], MDone v)"
    by (auto split: option.splits)
  show ?thesis
  proof (cases "st' = []")
    case True
    with step have "\<exists>w. scalar t = Some w \<and> m' = MDone w"
      by (cases "([]::frame list, t)" rule: begin_value.cases) (auto split: option.splits)
    then obtain w where w: "scalar t = Some w" "m' = MDone w" by blast
    with run True prun_done [of "[]" w ts' "([], MDone v)"] have "ts' = []" "w = v" by auto
    with w Cons show ?thesis by simp
  next
    case False
    from prun_container [OF False run] assms(2) show ?thesis by simp
  qed
qed

subsection \<open>Number tokens\<close>

text \<open>A number token is made of digits, signs, the point and the exponent letter.\<close>

lemma digits_split: "\<exists>pre. r = pre @ dropWhile is_digit r \<and> pre = takeWhile is_digit r \<and> (\<forall>c\<in>set pre. numch c)"
  by (auto simp: numch_def dest: set_takeWhileD)

lemma lex_minus_split: "lex_minus cs = (neg, r) \<Longrightarrow> \<exists>pre. cs = pre @ r \<and> (\<forall>c\<in>set pre. numch c)"
  by (cases cs) (auto simp: lex_minus_def numch_def split: if_splits intro: exI [of _ "[]"] exI [of _ "[x]" for x])

lemma lex_sign_split: "lex_sign cs = (neg, r) \<Longrightarrow> \<exists>pre. cs = pre @ r \<and> (\<forall>c\<in>set pre. numch c)"
  by (cases cs) (auto simp: lex_sign_def numch_def split: if_splits intro: exI [of _ "[]"] exI [of _ "[x]" for x])

lemma lex_int_split: "lex_int cs = Some (ds, r) \<Longrightarrow> \<exists>pre. cs = pre @ r \<and> (\<forall>c\<in>set pre. numch c)"
proof (cases cs)
  case Nil
  assume "lex_int cs = Some (ds, r)"
  with Nil show ?thesis by (simp add: lex_int_def)
next
  case (Cons c t)
  assume a: "lex_int cs = Some (ds, r)"
  show ?thesis
  proof (cases "c = CU CHR ''0''")
    case True
    with a Cons have "cs = [c] @ r" "numch c" by (auto simp: lex_int_def numch_def is_digit_def)
    then show ?thesis by (intro exI [of _ "[c]"]) simp
  next
    case False
    with a Cons have d: "is_digit c" and r: "r = dropWhile is_digit t"
      by (auto simp: lex_int_def split: if_splits)
    have "cs = (c # takeWhile is_digit t) @ r" using Cons r by simp
    moreover have "\<forall>x\<in>set (c # takeWhile is_digit t). numch x"
      using d by (auto simp: numch_def dest: set_takeWhileD)
    ultimately show ?thesis by blast
  qed
qed

lemma lex_frac_split: "lex_frac cs = Some (ds, r) \<Longrightarrow> \<exists>pre. cs = pre @ r \<and> (\<forall>c\<in>set pre. numch c)"
proof (cases cs)
  case Nil
  assume "lex_frac cs = Some (ds, r)"
  with Nil show ?thesis by (simp add: lex_frac_def)
next
  case (Cons c t)
  assume a: "lex_frac cs = Some (ds, r)"
  show ?thesis
  proof (cases "c = CU CHR ''.''")
    case True
    with a Cons have r: "r = dropWhile is_digit t" by (auto simp: lex_frac_def split: if_splits)
    have "cs = (c # takeWhile is_digit t) @ r" using Cons r by simp
    moreover have "\<forall>x\<in>set (c # takeWhile is_digit t). numch x"
      using True by (auto simp: numch_def dest: set_takeWhileD)
    ultimately show ?thesis by blast
  next
    case False
    with a Cons have "cs = [] @ r" by (auto simp: lex_frac_def)
    then show ?thesis by (intro exI [of _ "[]"]) simp
  qed
qed

lemma lex_exp_split: "lex_exp cs = Some (e, r) \<Longrightarrow> \<exists>pre. cs = pre @ r \<and> (\<forall>c\<in>set pre. numch c)"
proof (cases cs)
  case Nil
  assume "lex_exp cs = Some (e, r)"
  with Nil show ?thesis by (simp add: lex_exp_def)
next
  case (Cons c t)
  assume a: "lex_exp cs = Some (e, r)"
  show ?thesis
  proof (cases "c = CU CHR ''e'' \<or> c = CU CHR ''E''")
    case True
    obtain neg r1 where s: "lex_sign t = (neg, r1)" by (cases "lex_sign t")
    from lex_sign_split [OF s] obtain p1 where p1: "t = p1 @ r1" "\<forall>c\<in>set p1. numch c" by blast
    from a Cons True s have r: "r = dropWhile is_digit r1" by (auto simp: lex_exp_def split: if_splits)
    have "cs = (c # p1 @ takeWhile is_digit r1) @ r" using Cons r p1(1) by simp
    moreover have "\<forall>x\<in>set (c # p1 @ takeWhile is_digit r1). numch x"
      using True p1(2) by (auto simp: numch_def dest: set_takeWhileD)
    ultimately show ?thesis by blast
  next
    case False
    with a Cons have "cs = [] @ r" by (auto simp: lex_exp_def)
    then show ?thesis by (intro exI [of _ "[]"]) simp
  qed
qed

lemma lex_number_split:
  assumes "lex_number cs = Some (t, r)"
  shows "\<exists>pre. cs = pre @ r \<and> (\<forall>c\<in>set pre. numch c)"
proof -
  obtain neg cs1 where m: "lex_minus cs = (neg, cs1)" by (cases "lex_minus cs")
  with assms obtain ip cs2 where i: "lex_int cs1 = Some (ip, cs2)"
    by (auto simp: lex_number_def split: option.splits)
  with assms m obtain fp cs3 where f: "lex_frac cs2 = Some (fp, cs3)"
    by (auto simp: lex_number_def split: option.splits)
  with assms m i obtain ex where e: "lex_exp cs3 = Some (ex, r)"
    by (auto simp: lex_number_def split: option.splits)
  from lex_minus_split [OF m] obtain p1 where p1: "cs = p1 @ cs1" "\<forall>c\<in>set p1. numch c" by blast
  from lex_int_split [OF i] obtain p2 where p2: "cs1 = p2 @ cs2" "\<forall>c\<in>set p2. numch c" by blast
  from lex_frac_split [OF f] obtain p3 where p3: "cs2 = p3 @ cs3" "\<forall>c\<in>set p3. numch c" by blast
  from lex_exp_split [OF e] obtain p4 where p4: "cs3 = p4 @ r" "\<forall>c\<in>set p4. numch c" by blast
  have "cs = (p1 @ p2 @ p3 @ p4) @ r" using p1(1) p2(1) p3(1) p4(1) by simp
  moreover have "\<forall>c\<in>set (p1 @ p2 @ p3 @ p4). numch c" using p1(2) p2(2) p3(2) p4(2) by auto
  ultimately show ?thesis by blast
qed

lemma strip_prefix_split: "strip_prefix p cs = Some r \<Longrightarrow> cs = p @ r"
  by (induction p cs rule: strip_prefix.induct) (auto split: if_splits)

lemma lex_string_empty: "lex_string cs = Some ([], r) \<Longrightarrow> cs = CU CHR ''\"'' # r"
  by (cases cs rule: lex_string.cases) (auto split: if_splits list.splits option.splits)

subsection \<open>Texts of falsy values\<close>

text \<open>The text of a falsy value has no opening brace.\<close>

lemma tokenize_no_tokens: "tokenize s = Some [] \<Longrightarrow> \<forall>c\<in>set s. is_ws c"
proof (induction s)
  case Nil
  show ?case by simp
next
  case (Cons c cs)
  from Cons.prems have "is_ws c \<and> tokenize cs = Some []"
    by (auto split: if_splits option.splits)
  with Cons.IH show ?case by simp
qed

lemma plain_ws: "is_ws c \<Longrightarrow> plain c"
  by (auto simp: is_ws_def plain_def)

lemma plain_numch: "numch c \<Longrightarrow> plain c"
  by (auto simp: numch_def plain_def is_digit_def)

lemma tokenize_falsy:
  "tokenize s = Some [t] \<Longrightarrow> falsy_token t \<Longrightarrow> \<forall>c\<in>set s. plain c"
proof (induction s)
  case Nil
  then show ?case by simp
next
  case (Cons c cs)
  consider (ws) "is_ws c"
    | (quote) "\<not> is_ws c" "c = CU CHR ''\"''"
    | (num) "\<not> is_ws c" "c = CU CHR ''-'' \<or> is_digit c"
    | (n) "\<not> is_ws c" "c = CU CHR ''n''"
    | (f) "\<not> is_ws c" "c = CU CHR ''f''"
    | (other) "\<not> is_ws c" "c \<noteq> CU CHR ''\"''" "\<not> (c = CU CHR ''-'' \<or> is_digit c)"
         "c \<noteq> CU CHR ''n''" "c \<noteq> CU CHR ''f''"
    by blast
  then show ?case
  proof cases
    case ws
    with Cons.prems(1) have "tokenize cs = Some [t]" by simp
    with Cons.IH Cons.prems(2) ws show ?thesis by (simp add: plain_ws)
  next
    case quote
    with Cons.prems(1) obtain s' rest where
      l: "lex_string cs = Some (s', rest)" and r: "tokenize rest = Some []" and t: "t = TString s'"
      by (auto simp: is_ws_def split: option.splits)
    from t Cons.prems(2) have "s' = []" by simp
    with l have "cs = CU CHR ''\"'' # rest" by (auto dest: lex_string_empty)
    moreover from r have "\<forall>x\<in>set rest. plain x" by (auto dest: tokenize_no_tokens plain_ws)
    ultimately show ?thesis using quote by (simp add: plain_def)
  next
    case num
    then have c: "c \<noteq> CU CHR ''{''" "c \<noteq> CU CHR ''}''" "c \<noteq> CU CHR ''[''" "c \<noteq> CU CHR '']''"
      "c \<noteq> CU CHR '':''" "c \<noteq> CU CHR '',''" "c \<noteq> CU CHR ''\"''"
      by (auto simp: is_digit_def)
    with num Cons.prems(1) obtain t' rest where
      l: "lex_number (c # cs) = Some (t', rest)" and r: "tokenize rest = Some []"
      by (auto split: option.splits)
    from lex_number_split [OF l] obtain pre where "c # cs = pre @ rest" "\<forall>x\<in>set pre. numch x"
      by blast
    moreover from r have "\<forall>x\<in>set rest. plain x" by (auto dest: tokenize_no_tokens plain_ws)
    ultimately have "\<forall>x\<in>set (c # cs). plain x" by (auto dest: plain_numch)
    then show ?thesis .
  next
    case n
    then have c: "c \<noteq> CU CHR ''{''" "c \<noteq> CU CHR ''}''" "c \<noteq> CU CHR ''[''" "c \<noteq> CU CHR '']''"
      "c \<noteq> CU CHR '':''" "c \<noteq> CU CHR '',''" "c \<noteq> CU CHR ''\"''" "c \<noteq> CU CHR ''-''" "\<not> is_digit c"
      by (auto simp: is_digit_def)
    with n Cons.prems(1) obtain rest where
      l: "strip_prefix (js ''ull'') cs = Some rest" and r: "tokenize rest = Some []"
      by (auto split: option.splits)
    from l have "cs = js ''ull'' @ rest" by (rule strip_prefix_split)
    moreover from r have "\<forall>x\<in>set rest. plain x" by (auto dest: tokenize_no_tokens plain_ws)
    ultimately show ?thesis using n by (auto simp: plain_def js_def)
  next
    case f
    then have c: "c \<noteq> CU CHR ''{''" "c \<noteq> CU CHR ''}''" "c \<noteq> CU CHR ''[''" "c \<noteq> CU CHR '']''"
      "c \<noteq> CU CHR '':''" "c \<noteq> CU CHR '',''" "c \<noteq> CU CHR ''\"''" "c \<noteq> CU CHR ''-''" "\<not> is_digit c"
      "c \<noteq> CU CHR ''n''" "c \<noteq> CU CHR ''t''"
      by (auto simp: is_digit_def)
    with f Cons.prems(1) obtain rest where
      l: "strip_prefix (js ''alse'') cs = Some rest" and r: "tokenize rest = Some []"
      by (auto split: option.splits)
    from l have "cs = js ''alse'' @ rest" by (rule strip_prefix_split)
    moreover from r have "\<forall>x\<in>set rest. plain x" by (auto dest: tokenize_no_tokens plain_ws)
    ultimately show ?thesis using f by (auto simp: plain_def js_def)
  next
    case other
    with Cons.prems have False
      by (auto split: if_splits option.splits)
    then show ?thesis ..
  qed
qed

lemma falsy_is_scalar: "\<not> ToBoolean v \<Longrightarrow> \<not> is_container v"
  by (cases v) auto

lemma scalar_falsy: "scalar t = Some v \<Longrightarrow> \<not> ToBoolean v \<Longrightarrow> falsy_token t"
  by (cases t) auto

lemma JSON_parse_falsy:
  assumes "JSON_parse s = Some v" and "\<not> ToBoolean v"
  shows "CU CHR ''{'' \<notin> set s"
proof -
  from assms(1) obtain ts where ts: "tokenize s = Some ts" and
    run: "prun ([], MValue) ts = Some ([], MDone v)"
    by (auto simp: JSON_parse_def split: option.splits list.splits pmode.splits)
  from prun_scalar [OF run falsy_is_scalar [OF assms(2)]] obtain t where
    t: "ts = [t]" "scalar t = Some v" by blast
  from scalar_falsy [OF t(2) assms(2)] have "falsy_token t" .
  with ts t(1) tokenize_falsy have "\<forall>c\<in>set s. plain c" by blast
  then show ?thesis by (auto simp: plain_def)
qed

subsection \<open>The normalizer, step by step\<close>

lemma JSON_parse_Nil: "JSON_parse [] = None"
  by (simp add: JSON_parse_def)

lemma tryParse_truthy: "ToBoolean (tryParse s) \<Longrightarrow> JSON_parse s = Some (tryParse s)"
  by (auto simp: tryParse_def split: option.splits)

lemma fence_stripped_Nil: "fence_stripped [] = []"
  by (simp add: fence_stripped_def js_def)

lemma fence_stripped_part: "\<exists>pre post. s = pre @ fence_stripped s @ post"
proof (cases "fence_match (js ''```json'') s")
  case (Some g)
  from fence_match_split [OF Some] obtain pre m post where "s = pre @ m @ g @ js ''```'' @ post"
    by blast
  then have "s = (pre @ m) @ g @ (js ''```'' @ post)" by simp
  with Some show ?thesis unfolding fence_stripped_def by (simp only: option.case) blast
next
  case None
  show ?thesis
  proof (cases "fence_match (js ''```'') s")
    case (Some g)
    from fence_match_split [OF Some] obtain pre m post where "s = pre @ m @ g @ js ''```'' @ post"
      by blast
    then have "s = (pre @ m) @ g @ (js ''```'' @ post)" by simp
    with None Some show ?thesis unfolding fence_stripped_def by (simp only: option.case) blast
  next
    case None': None
    have "s = [] @ s @ []" by simp
    with None None' show ?thesis unfolding fence_stripped_def by (simp only: option.case) blast
  qed
qed

text \<open>The body of the function on a string, with the fence step named.\<close>

lemma normalize_string:
  "parseModelReplyToJson (JStr s) =
     (if ToBoolean (tryParse s) then tryParse s
      else if indexOf (fence_stripped s) (CU CHR ''{'') \<noteq> - 1
              \<and> lastIndexOf (fence_stripped s) (CU CHR ''}'') \<noteq> - 1
              \<and> lastIndexOf (fence_stripped s) (CU CHR ''}'') > indexOf (fence_stripped s) (CU CHR ''{'')
           then
             (if ToBoolean (tryParse (slice (fence_stripped s) (indexOf (fence_stripped s) (CU CHR ''{''))
                                        (lastIndexOf (fence_stripped s) (CU CHR ''}'') + 1)))
              then tryParse (slice (fence_stripped s) (indexOf (fence_stripped s) (CU CHR ''{''))
                                        (lastIndexOf (fence_stripped s) (CU CHR ''}'') + 1))
              else raw_record (JStr s))
      else raw_record (JStr s))"
proof (cases "s = []")
  case True
  then show ?thesis
    by (simp add: parseModelReplyToJson_def tryParse_def JSON_parse_Nil fence_stripped_Nil)
next
  case False
  have fs: "fence_stripped s =
            (case (case fence_match (js ''```json'') s of
                          Some g \<Rightarrow> Some g
                        | None \<Rightarrow> fence_match (js ''```'') s) of Some g \<Rightarrow> g | None \<Rightarrow> s)"
    by (simp add: fence_stripped_def split: option.splits)
  from False show ?thesis
    by (simp add: parseModelReplyToJson_def Let_def fs)
qed

text \<open>The three outcomes, in terms of lists.\<close>

lemma normalize_direct:
  "ToBoolean (tryParse s) \<Longrightarrow> parseModelReplyToJson (JStr s) = tryParse s"
  by (simp add: normalize_string)

lemma normalize_span:
  assumes "\<not> ToBoolean (tryParse s)"
    and "fence_stripped s = pre @ CU CHR ''{'' # mid @ CU CHR ''}'' # post"
    and "CU CHR ''{'' \<notin> set pre" and "CU CHR ''}'' \<notin> set post"
  shows "parseModelReplyToJson (JStr s) =
           (if ToBoolean (tryParse (CU CHR ''{'' # mid @ [CU CHR ''}'']))
            then tryParse (CU CHR ''{'' # mid @ [CU CHR ''}''])
            else raw_record (JStr s))"
  using brace_span_compose [OF assms(2,3,4)] assms(1)
  by (simp add: normalize_string)

lemma normalize_no_span:
  assumes "\<not> ToBoolean (tryParse s)"
    and "\<not> (\<exists>pre mid post. fence_stripped s = pre @ CU CHR ''{'' # mid @ CU CHR ''}'' # post)"
  shows "parseModelReplyToJson (JStr s) = raw_record (JStr s)"
proof -
  have "\<not> (indexOf (fence_stripped s) (CU CHR ''{'') \<noteq> - 1
              \<and> lastIndexOf (fence_stripped s) (CU CHR ''}'') \<noteq> - 1
              \<and> lastIndexOf (fence_stripped s) (CU CHR ''}'') > indexOf (fence_stripped s) (CU CHR ''{''))"
  proof
    assume "indexOf (fence_stripped s) (CU CHR ''{'') \<noteq> - 1
              \<and> lastIndexOf (fence_stripped s) (CU CHR ''}'') \<noteq> - 1
              \<and> lastIndexOf (fence_stripped s) (CU CHR ''}'') > indexOf (fence_stripped s) (CU CHR ''{'')"
    then obtain pre mid post where "fence_stripped s = pre @ CU CHR ''{'' # mid @ CU CHR ''}'' # post"
      using brace_span_decompose [of "fence_stripped s" "CU CHR ''{''" "CU CHR ''}''"] by blast
    with assms(2) show False by blast
  qed
  with assms(1) show ?thesis by (auto simp: normalize_string)
qed

lemma normalize_no_open_brace:
  assumes "\<not> ToBoolean (tryParse s)" and "CU CHR ''{'' \<notin> set s"
  shows "parseModelReplyToJson (JStr s) = raw_record (JStr s)"
proof -
  obtain pre post where "s = pre @ fence_stripped s @ post" using fence_stripped_part by blast
  then have "set (fence_stripped s) \<subseteq> set s" by (metis set_append sup_ge1 sup_ge2 subset_trans)
  with assms(2) have "indexOf (fence_stripped s) (CU CHR ''{'') = - 1"
    by (auto simp: indexOf_absent)
  with assms(1) show ?thesis by (simp add: normalize_string)
qed

subsection \<open>The effects of one file and of the loop\<close>

lemma sent_append: "sent (a @ b) = sent a @ sent b"
  by (induction a rule: sent.induct) auto

lemma sent_no_send: "\<forall>e\<in>set es. \<not> is_send e \<Longrightarrow> sent es = []"
  by (induction es rule: sent.induct) auto

text \<open>What one file adds to the effects.\<close>

lemma process_file_effects:
  "\<exists>new. effects (snd (process_file env i p s)) = effects s @ new
     \<and> (new = []
          \<or> (\<exists>pr. new = [EResetChatHistory, EPrompt [] pr] \<and> (\<exists>e. fst (process_file env i p s) = Inl e))
          \<or> (\<exists>pr res. new = [EResetChatHistory, EPrompt [] pr, EConsoleLog p res] @ (if windows env i > 0 then [ESend p res] else [])
                 \<and> fst (process_file env i p s) = Inr ()))
     \<and> (new = [] \<longrightarrow> (\<exists>e. fst (process_file env i p s) = Inl e))"
  unfolding process_file_def Let_def emit_def
  by (auto split: sum.splits option.splits)

lemma process_file_ok:
  assumes "process_file env i p s = (Inr u, s')"
  shows "\<exists>pr res. effects s' = effects s @ [EResetChatHistory, EPrompt [] pr, EConsoleLog p res]
                       @ (if windows env i > 0 then [ESend p res] else [])"
proof -
  from process_file_effects [of env i p s] assms obtain new where
    n: "effects s' = effects s @ new"
       "new = [] \<or> (\<exists>pr. new = [EResetChatHistory, EPrompt [] pr] \<and> (\<exists>e. Inr u = Inl e))
          \<or> (\<exists>pr res. new = [EResetChatHistory, EPrompt [] pr, EConsoleLog p res] @ (if windows env i > 0 then [ESend p res] else []))"
       "new = [] \<longrightarrow> (\<exists>e. Inr u = Inl e)"
    by auto
  then have "\<exists>pr res. new = [EResetChatHistory, EPrompt [] pr, EConsoleLog p res] @ (if windows env i > 0 then [ESend p res] else [])"
    by blast
  with n(1) show ?thesis by blast
qed

lemma process_file_err:
  assumes "process_file env i p s = (Inl e, s')"
  shows "effects s' = effects s \<or> (\<exists>pr. effects s' = effects s @ [EResetChatHistory, EPrompt [] pr])"
  using process_file_effects [of env i p s] assms by auto

lemma fresh_prompts_append:
  assumes "fresh_prompts a" and "fresh_prompts b"
  shows "fresh_prompts (a @ b)"
  unfolding fresh_prompts_def
proof (intro allI impI)
  fix k h p
  assume k: "k < length (a @ b)" and e: "(a @ b) ! k = EPrompt h p"
  show "h = [] \<and> 0 < k \<and> (a @ b) ! (k - 1) = EResetChatHistory"
  proof (cases "k < length a")
    case True
    with e have "a ! k = EPrompt h p" by (simp add: nth_append)
    with assms(1) True have "h = [] \<and> 0 < k \<and> a ! (k - 1) = EResetChatHistory"
      unfolding fresh_prompts_def by blast
    moreover from True have "k - 1 < length a" by arith
    then have "(a @ b) ! (k - 1) = a ! (k - 1)" by (simp add: nth_append)
    ultimately show ?thesis by simp
  next
    case False
    with e have eb: "b ! (k - length a) = EPrompt h p" by (simp add: nth_append)
    from False k have "k - length a < length b" by simp
    with assms(2) eb have r: "h = [] \<and> 0 < k - length a \<and> b ! (k - length a - 1) = EResetChatHistory"
      unfolding fresh_prompts_def by blast
    then have "\<not> k - 1 < length a" by arith
    then have "(a @ b) ! (k - 1) = b ! (k - 1 - length a)" by (simp add: nth_append)
    moreover have "k - 1 - length a = k - length a - 1" by arith
    ultimately show ?thesis using r by simp
  qed
qed

lemma fresh_prompts_file:
  "fresh_prompts []"
  "fresh_prompts [EResetChatHistory, EPrompt [] pr]"
  "fresh_prompts ([EResetChatHistory, EPrompt [] pr, EConsoleLog p res] @ (if c then [ESend p res] else []))"
  by (auto simp: fresh_prompts_def nth_Cons' split: if_splits)

lemma process_file_fresh:
  "\<exists>new. effects (snd (process_file env i p s)) = effects s @ new \<and> fresh_prompts new"
proof -
  from process_file_effects [of env i p s] obtain new where
    n: "effects (snd (process_file env i p s)) = effects s @ new"
       "new = [] \<or> (\<exists>pr. new = [EResetChatHistory, EPrompt [] pr])
          \<or> (\<exists>pr res. new = [EResetChatHistory, EPrompt [] pr, EConsoleLog p res] @ (if windows env i > 0 then [ESend p res] else []))"
    by blast
  from n(2) have "fresh_prompts new"
    using fresh_prompts_file(1) fresh_prompts_file(2) fresh_prompts_file(3) [of _ p _ "windows env i > 0"]
    by auto
  with n(1) show ?thesis by blast
qed

lemma process_files_fresh:
  "\<exists>new. effects (snd (process_files env i ps s)) = effects s @ new \<and> fresh_prompts new"
proof (induction ps arbitrary: i s)
  case Nil
  show ?case using fresh_prompts_file(1) by simp
next
  case (Cons p ps)
  obtain r s1 where pf: "process_file env i p s = (r, s1)" by (cases "process_file env i p s")
  from process_file_fresh [of env i p s] pf obtain new1 where
    n1: "effects s1 = effects s @ new1" "fresh_prompts new1" by auto
  show ?case
  proof (cases r)
    case (Inl e)
    with pf n1 show ?thesis by auto
  next
    case (Inr u)
    from Cons.IH [of "Suc i" s1] obtain new2 where
      n2: "effects (snd (process_files env (Suc i) ps s1)) = effects s1 @ new2"
          "fresh_prompts new2" by blast
    from n1 n2 have "effects (snd (process_files env (Suc i) ps s1)) = effects s @ (new1 @ new2)"
      by simp
    moreover have "fresh_prompts (new1 @ new2)" using n1(2) n2(2) by (rule fresh_prompts_append)
    ultimately show ?thesis using pf Inr by auto
  qed
qed

subsection \<open>The effects of loading the session\<close>

lemma session_free_fresh: "is_session_free es \<Longrightarrow> fresh_prompts es"
  unfolding is_session_free_def fresh_prompts_def
  by (metis is_prompt.simps(1) nth_mem)

lemma session_free_sent: "is_session_free es \<Longrightarrow> sent es = []"
  unfolding is_session_free_def by (simp add: sent_no_send)

lemma ensureUserModelDir_effects:
  "\<exists>new. effects (snd (ensureUserModelDir env s)) = effects s @ new \<and> is_session_free new
     \<and> (snd (ensureUserModelDir env s))\<lparr>effects := effects s\<rparr> = s"
  unfolding ensureUserModelDir_def Let_def emit_def is_session_free_def
  by (auto split: option.splits)

lemma initModel_effects:
  "\<exists>new. effects (snd (initModel env s)) = effects s @ new \<and> is_session_free new"
proof -
  obtain d s0 where e: "ensureUserModelDir env s = (d, s0)" by (cases "ensureUserModelDir env s")
  from ensureUserModelDir_effects [of env s] e obtain n0 where
    n0: "effects s0 = effects s @ n0" "is_session_free n0" by auto
  then show ?thesis
    unfolding initModel_def resolveModelPath_def
    using e
    by (auto simp: Let_def emit_def is_session_free_def split: option.splits prod.splits sum.splits)
qed

subsection \<open>The handler\<close>

lemma initModel_loaded: "loaded s \<Longrightarrow> initModel env s = (Inr (), s)"
  by (simp add: initModel_def)

lemma ready_is_initModel:
  "(if \<not> loaded s then initModel env s else (Inr (), s)) = initModel env s"
  by (simp add: initModel_loaded)

text \<open>The handler, with its three stages named.\<close>

lemma handler_stages:
  "parse_resume_pdf env s arg =
     (case choose_paths env arg of
        Inl e \<Rightarrow> (Inl e, emit EConsoleError s)
      | Inr None \<Rightarrow> (Inr Canceled, s)
      | Inr (Some filePaths) \<Rightarrow>
          (case initModel env s of
             (Inl e, s1) \<Rightarrow> (Inl e, emit EConsoleError s1)
           | (Inr u, s1) \<Rightarrow>
               (case process_files env 0 filePaths s1 of
                  (Inl e, s2) \<Rightarrow> (Inl e, emit EConsoleError s2)
                | (Inr u', s2) \<Rightarrow> (Inr Completed, s2))))"
proof -
  have "parse_resume_pdf_body env s arg =
     (case choose_paths env arg of
        Inl e \<Rightarrow> (Inl e, s)
      | Inr None \<Rightarrow> (Inr Canceled, s)
      | Inr (Some filePaths) \<Rightarrow>
          (case initModel env s of
             (Inl e, s1) \<Rightarrow> (Inl e, s1)
           | (Inr u, s1) \<Rightarrow>
               (case process_files env 0 filePaths s1 of
                  (Inl e, s2) \<Rightarrow> (Inl e, s2)
                | (Inr u', s2) \<Rightarrow> (Inr Completed, s2))))"
    by (simp only: parse_resume_pdf_body_def ready_is_initModel)
  then show ?thesis
    by (simp add: parse_resume_pdf_def split: sum.split option.split prod.split)
qed

lemma process_files_prompts:
  "fst (process_files env i ps s) = Inr u \<Longrightarrow>
     \<exists>new. effects (snd (process_files env i ps s)) = effects s @ new
       \<and> length (filter is_prompt new) = length ps"
proof (induction ps arbitrary: i s)
  case Nil
  show ?case by simp
next
  case (Cons p ps)
  obtain r s1 where pf: "process_file env i p s = (r, s1)" by (cases "process_file env i p s")
  with Cons.prems obtain u1 where r: "r = Inr u1" by (cases r) auto
  from process_file_ok [of env i p s u1 s1] pf r obtain pr res where
    n1: "effects s1 = effects s @ [EResetChatHistory, EPrompt [] pr, EConsoleLog p res]
                       @ (if windows env i > 0 then [ESend p res] else [])" by blast
  from Cons.prems pf r have "fst (process_files env (Suc i) ps s1) = Inr u" by simp
  from Cons.IH [OF this] obtain new2 where
    n2: "effects (snd (process_files env (Suc i) ps s1)) = effects s1 @ new2"
        "length (filter is_prompt new2) = length ps" by blast
  let ?new1 = "[EResetChatHistory, EPrompt [] pr, EConsoleLog p res]
                       @ (if windows env i > 0 then [ESend p res] else [])"
  have "effects (snd (process_files env i (p # ps) s)) = effects s @ (?new1 @ new2)"
    using pf r n1 n2(1) by simp
  moreover have "length (filter is_prompt (?new1 @ new2)) = length (p # ps)"
    using n2(2) by simp
  ultimately show ?case by blast
qed

lemma process_file_result:
  assumes "process_file env i p s = (Inr u, s')"
  shows "\<exists>res. document_result env p = Some res
           \<and> sent (effects s') = sent (effects s) @ (if windows env i > 0 then [(p, res)] else [])"
  using assms
  unfolding process_file_def document_result_def Let_def emit_def
  by (auto simp: sent_append split: sum.splits option.splits if_splits)

lemma process_files_sent:
  "fst (process_files env i ps s) = Inr u \<Longrightarrow> \<forall>j<length ps. windows env (i + j) > 0 \<Longrightarrow>
     \<exists>evs. sent (effects (snd (process_files env i ps s))) = sent (effects s) @ evs
       \<and> map fst evs = ps \<and> map (\<lambda>e. Some (snd e)) evs = map (document_result env) ps"
proof (induction ps arbitrary: i s)
  case Nil
  show ?case by simp
next
  case (Cons p ps)
  obtain r s1 where pf: "process_file env i p s = (r, s1)" by (cases "process_file env i p s")
  with Cons.prems(1) obtain u1 where r: "r = Inr u1" by (cases r) auto
  from Cons.prems(2) [rule_format, of 0] have w: "windows env i > 0" by simp
  from process_file_result [of env i p s u1 s1] pf r w obtain res where
    dr: "document_result env p = Some res"
    and s1: "sent (effects s1) = sent (effects s) @ [(p, res)]" by auto
  from Cons.prems(1) pf r have ok: "fst (process_files env (Suc i) ps s1) = Inr u" by simp
  have "\<forall>j<length ps. windows env (Suc i + j) > 0"
  proof (intro allI impI)
    fix j assume "j < length ps"
    then have "Suc j < length (p # ps)" by simp
    with Cons.prems(2) [rule_format, of "Suc j"] have "windows env (i + Suc j) > 0" by simp
    then show "windows env (Suc i + j) > 0" by simp
  qed
  from Cons.IH [OF ok this] obtain evs where
    n2: "sent (effects (snd (process_files env (Suc i) ps s1))) = sent (effects s1) @ evs"
    and m: "map fst evs = ps"
    and m': "map (\<lambda>e. Some (snd e)) evs = map (document_result env) ps" by blast
  have "process_files env i (p # ps) s = process_files env (Suc i) ps s1"
    using pf r by simp
  then have a: "sent (effects (snd (process_files env i (p # ps) s))) = sent (effects s) @ ((p, res) # evs)"
    using n2 s1 by simp
  have b: "map fst ((p, res) # evs) = p # ps" using m by simp
  have c: "map (\<lambda>e. Some (snd e)) ((p, res) # evs) = map (document_result env) (p # ps)"
    using m' dr by simp
  show ?case by (rule exI [of _ "(p, res) # evs"]) (intro conjI a b c)
qed

lemma process_files_abort:
  "process_files env i pre s = (Inr u, s1) \<Longrightarrow> process_file env (i + length pre) p s1 = (Inl e, s2)
     \<Longrightarrow> process_files env i (pre @ p # rest) s = (Inl e, s2)"
proof (induction pre arbitrary: i s)
  case Nil
  then show ?case by simp
next
  case (Cons q pre)
  obtain r s' where pf: "process_file env i q s = (r, s')" by (cases "process_file env i q s")
  with Cons.prems(1) obtain u1 where r: "r = Inr u1" by (cases r) auto
  from Cons.prems(1) pf r have a: "process_files env (Suc i) pre s' = (Inr u, s1)" by simp
  from Cons.prems(2) have b: "process_file env (Suc i + length pre) p s1 = (Inl e, s2)" by simp
  from Cons.IH [OF a b] pf r show ?case by simp
qed

lemma process_file_err_sent:
  "process_file env i p s = (Inl e, s') \<Longrightarrow> sent (effects s') = sent (effects s)"
  by (drule process_file_err) (auto simp: sent_append)

subsection \<open>Extensions\<close>

lemma lower_shift: "(c::codeunit) + 32 = l \<longleftrightarrow> c = l - 32"
  by auto

lemma upper_shift: "(c::codeunit) - 32 = l \<longleftrightarrow> c = l + 32"
  by auto

lemma ci_char:
  "l \<in> {0x2E, 0x70, 0x64, 0x66, 0x6F, 0x63, 0x78} \<Longrightarrow>
     ascii_lower c = l \<longleftrightarrow> ascii_upper c = ascii_upper l"
  unfolding ascii_lower_def ascii_upper_def
  by (auto simp: lower_shift upper_shift)

lemma ci_string:
  "set l \<subseteq> {0x2E, 0x70, 0x64, 0x66, 0x6F, 0x63, 0x78} \<Longrightarrow> toLowerCase e = l \<longleftrightarrow> ci_equal e l"
proof (induction e arbitrary: l)
  case Nil
  show ?case by (auto simp: toLowerCase_def ci_equal_def)
next
  case (Cons c e)
  show ?case
  proof (cases l)
    case Nil
    then show ?thesis by (simp add: toLowerCase_def ci_equal_def)
  next
    case (Cons x l')
    with Cons.prems have x: "x \<in> {0x2E, 0x70, 0x64, 0x66, 0x6F, 0x63, 0x78}"
      and l': "set l' \<subseteq> {0x2E, 0x70, 0x64, 0x66, 0x6F, 0x63, 0x78}" by auto
    from Cons.IH [OF l'] have "map ascii_lower e = l' \<longleftrightarrow> map ascii_upper e = map ascii_upper l'"
      by (simp add: toLowerCase_def ci_equal_def)
    with ci_char [OF x, of c] Cons show ?thesis
      by (simp add: toLowerCase_def ci_equal_def)
  qed
qed

lemma lower_pdf: "toLowerCase e = js ''.pdf'' \<longleftrightarrow> ci_equal e (js ''.pdf'')"
  by (rule ci_string) (simp add: js_def)

lemma lower_docx: "toLowerCase e = js ''.docx'' \<longleftrightarrow> ci_equal e (js ''.docx'')"
  by (rule ci_string) (simp add: js_def)

lemma not_both: "\<not> (ci_equal e (js ''.pdf'') \<and> ci_equal e (js ''.docx''))"
  by (auto simp: ci_equal_def js_def dest: map_eq_imp_length_eq)

subsection \<open>Loading the session\<close>

lemma ensureUserModelDir_keeps:
  "llamaModel (snd (ensureUserModelDir env s)) = llamaModel s
   \<and> llamaContext (snd (ensureUserModelDir env s)) = llamaContext s
   \<and> chatSession (snd (ensureUserModelDir env s)) = chatSession s
   \<and> model_loads (snd (ensureUserModelDir env s)) = model_loads s"
  unfolding ensureUserModelDir_def Let_def emit_def model_loads_def
  by (auto split: option.splits)

lemma initModel_success:
  assumes "\<not> loaded s" and "initModel env s = (Inr (), s1)"
  shows "loaded s1 \<and> model_loads s1 = model_loads s + 1"
proof -
  obtain d s0 where e: "ensureUserModelDir env s = (d, s0)" by (cases "ensureUserModelDir env s")
  from ensureUserModelDir_keeps [of env s] e have k: "model_loads s0 = model_loads s" by simp
  from assms e obtain mp where
    "s1 = (emit ENewSession ((emit ECreateContext ((emit (ELoadModel mp) s0)\<lparr>llamaModel := Some (LlamaModel mp)\<rparr>))
                     \<lparr>llamaContext := Some (LlamaContext (LlamaModel mp))\<rparr>))
               \<lparr>chatSession :=
                  Some \<lparr>contextSequence = LlamaContext (LlamaModel mp),
                        chatHistory = []\<rparr>\<rparr>"
    unfolding initModel_def resolveModelPath_def
    by (auto simp: Let_def split: option.splits if_splits)
  with k show ?thesis
    by (simp add: loaded_def model_loads_def emit_def)
qed

section \<open>The claims\<close>

text \<open>
  C1, as stated, fails. In a batch of three files whose second file cannot be read, the
  handler rejects with the read error: the batch as a whole fails. The only event sent is
  that of the first file; the third file is never processed.
\<close>

theorem C1_counterexample:
  "fst (parse_resume_pdf env_unreadable initial_state (Some three_files))
     = Inl (ReadFileError (js ''b.pdf''))
   \<and> sent (effects (snd (parse_resume_pdf env_unreadable initial_state (Some three_files))))
     = [(js ''a.pdf'', JObj [])]"
  by code_simp

text \<open>
  C1, amended. A failure of one document is not caught per document: when the session is
  ready, the documents \<open>pre\<close> before \<open>p\<close> have been processed and \<open>p\<close> fails (its file
  cannot be read, or the model fails on its prompt), the loop stops at \<open>p\<close>; the handler
  logs the error and rejects with it, so the batch as a whole fails; no event is sent for
  \<open>p\<close> or for any document after it, whatever they are, and the events sent are those of
  the documents before \<open>p\<close>.
\<close>

theorem C1_failure_aborts_batch:
  assumes "choose_paths env arg = Inr (Some (pre @ p # rest))"
    and "initModel env s = (Inr (), s0)"
    and "process_files env 0 pre s0 = (Inr (), s1)"
    and "process_file env (length pre) p s1 = (Inl e, s2)"
  shows "parse_resume_pdf env s arg = (Inl e, emit EConsoleError s2)
         \<and> sent (effects (emit EConsoleError s2)) = sent (effects s1)"
proof -
  from assms(3,4) have "process_files env 0 (pre @ p # rest) s0 = (Inl e, s2)"
    using process_files_abort [of env 0 pre s0 "()" s1 p e s2 rest] by simp
  with assms(1,2) have "parse_resume_pdf env s arg = (Inl e, emit EConsoleError s2)"
    by (simp add: handler_stages)
  moreover from assms(4) have "sent (effects s2) = sent (effects s1)"
    by (rule process_file_err_sent)
  then have "sent (effects (emit EConsoleError s2)) = sent (effects s1)"
    by (simp add: emit_def sent_append)
  ultimately show ?thesis by simp
qed

text \<open>
  The amended C1 at the batch of the claim: three files, the second unreadable.
\<close>

theorem C1_witness:
  "parse_resume_pdf env_unreadable initial_state (Some three_files)
     = (Inl (ReadFileError (js ''b.pdf'')),
        emit EConsoleError (snd (process_files env_unreadable 0 [js ''a.pdf'']
                                   (snd (initModel env_unreadable initial_state)))))
   \<and> sent (effects (emit EConsoleError (snd (process_files env_unreadable 0 [js ''a.pdf'']
                                   (snd (initModel env_unreadable initial_state))))))
       = [(js ''a.pdf'', JObj [])]"
proof -
  let ?s0 = "snd (initModel env_unreadable initial_state)"
  let ?s1 = "snd (process_files env_unreadable 0 [js ''a.pdf''] ?s0)"
  have 1: "choose_paths env_unreadable (Some three_files)
             = Inr (Some ([js ''a.pdf''] @ js ''b.pdf'' # [js ''c.docx'']))"
    by code_simp
  have "fst (initModel env_unreadable initial_state) = Inr ()" by code_simp
  then have 2: "initModel env_unreadable initial_state = (Inr (), ?s0)"
    by (metis prod.collapse)
  have "fst (process_files env_unreadable 0 [js ''a.pdf''] ?s0) = Inr ()" by code_simp
  then have 3: "process_files env_unreadable 0 [js ''a.pdf''] ?s0 = (Inr (), ?s1)"
    by (metis prod.collapse)
  have "extractTextFromResumeFile env_unreadable (js ''b.pdf'') = Inl (ReadFileError (js ''b.pdf''))"
    by code_simp
  then have 4: "process_file env_unreadable (length [js ''a.pdf'']) (js ''b.pdf'') ?s1
                  = (Inl (ReadFileError (js ''b.pdf'')), ?s1)"
    by (simp add: process_file_def)
  have 5: "sent (effects ?s1) = [(js ''a.pdf'', JObj [])]" by code_simp
  from C1_failure_aborts_batch [OF 1 2 3 4] 5 show ?thesis by simp
qed

text \<open>
  C2, as stated, fails. With no window open, a batch of one file completes and sends no
  event; when the model fails on the first prompt, a batch of two files is rejected and
  sends no event.
\<close>

theorem C2_counterexample:
  "fst (parse_resume_pdf env_no_window initial_state (Some [js ''a.pdf''])) = Inr Completed
   \<and> sent (effects (snd (parse_resume_pdf env_no_window initial_state (Some [js ''a.pdf''])))) = []
   \<and> fst (parse_resume_pdf env_model_fails initial_state (Some [js ''a.pdf'', js ''c.docx'']))
        = Inl PromptError
   \<and> sent (effects (snd (parse_resume_pdf env_model_fails initial_state
                             (Some [js ''a.pdf'', js ''c.docx''])))) = []"
  by code_simp

text \<open>
  C2, amended. For every batch of N paths (those of the renderer, or those of the dialog
  when the renderer gives none) that the handler completes, with a window open at every
  document, exactly N events \<open>resume-item-parsed\<close> are sent, the i-th carries the i-th
  path together with the record of that document, and they are in the order of the paths.
\<close>

theorem C2_events_in_order:
  assumes "choose_paths env arg = Inr (Some paths)"
    and "fst (parse_resume_pdf env s arg) = Inr Completed"
    and "\<forall>i<length paths. windows env i > 0"
  shows "\<exists>evs. sent (effects (snd (parse_resume_pdf env s arg))) = sent (effects s) @ evs
           \<and> length evs = length paths
           \<and> map fst evs = paths
           \<and> map (\<lambda>e. Some (snd e)) evs = map (document_result env) paths"
proof -
  obtain r0 s0 where i: "initModel env s = (r0, s0)" by (cases "initModel env s")
  obtain r1 s1 where l: "process_files env 0 paths s0 = (r1, s1)"
    by (cases "process_files env 0 paths s0")
  from assms(1,2) i l have ok: "r0 = Inr ()" "r1 = Inr ()"
    and fin: "snd (parse_resume_pdf env s arg) = s1"
    by (auto simp: handler_stages split: sum.splits)
  from initModel_effects [of env s] i obtain n0 where
    "effects s0 = effects s @ n0" "is_session_free n0" by auto
  then have s0: "sent (effects s0) = sent (effects s)"
    by (simp add: sent_append session_free_sent)
  from l ok have "fst (process_files env 0 paths s0) = Inr ()" by simp
  moreover from assms(3) have "\<forall>j<length paths. windows env (0 + j) > 0" by simp
  ultimately obtain evs where
    e: "sent (effects (snd (process_files env 0 paths s0))) = sent (effects s0) @ evs"
    and m: "map fst evs = paths"
    and m': "map (\<lambda>e. Some (snd e)) evs = map (document_result env) paths"
    using process_files_sent [of env 0 paths s0 "()"] by blast
  from e l fin s0 have a: "sent (effects (snd (parse_resume_pdf env s arg))) = sent (effects s) @ evs"
    by simp
  from m have b: "length evs = length paths" by (metis length_map)
  show ?thesis by (rule exI [of _ evs]) (intro conjI a b m m')
qed

text \<open>
  The amended C2 at a batch of three files in a world where everything works.
\<close>

theorem C2_witness:
  "sent (effects (snd (parse_resume_pdf env_ok initial_state (Some three_files))))
     = [(js ''a.pdf'', JObj []), (js ''b.pdf'', JObj []), (js ''c.docx'', JObj [])]"
proof -
  have 1: "choose_paths env_ok (Some three_files) = Inr (Some three_files)" by code_simp
  have 2: "fst (parse_resume_pdf env_ok initial_state (Some three_files)) = Inr Completed"
    by code_simp
  have 3: "\<forall>i<length three_files. windows env_ok i > 0" by (simp add: env_ok_def)
  have 4: "sent (effects initial_state) = []" by (simp add: initial_state_def)
  have 5: "map (document_result env_ok) three_files = [Some (JObj []), Some (JObj []), Some (JObj [])]"
    by code_simp
  from C2_events_in_order [OF 1 2 3] 4 5 obtain evs where
    e: "sent (effects (snd (parse_resume_pdf env_ok initial_state (Some three_files)))) = evs"
    and f: "map fst evs = three_files"
    and g: "map (\<lambda>e. Some (snd e)) evs = [Some (JObj []), Some (JObj []), Some (JObj [])]"
    by auto
  from f g have "evs = [(js ''a.pdf'', JObj []), (js ''b.pdf'', JObj []), (js ''c.docx'', JObj [])]"
    by (auto simp: three_files_def map_eq_Cons_conv)
  with e show ?thesis by simp
qed

text \<open>
  C3, as stated, fails: the reply \<open>42\<close> is valid JSON and truthy, so the direct parse
  returns the number 42, which is neither a record nor the sentinel.
\<close>

theorem C3_counterexample:
  "\<not> is_record (parseModelReplyToJson (JStr (js ''42'')))
   \<and> parseModelReplyToJson (JStr (js ''42'')) = JNum False 42 0"
  by code_simp

text \<open>
  C3, amended. \<open>parseModelReplyToJson\<close> is a total function on reply texts (nothing in
  it throws), and for every reply text it returns either the sentinel \<open>{ raw: reply }\<close>,
  whose field \<open>raw\<close> is the reply, or a truthy value that \<open>JSON.parse\<close> gives for a
  contiguous part of the reply (the whole reply, or a brace span). That value need not be
  record-shaped.
\<close>

theorem C3_normalizer_total:
  "(parseModelReplyToJson (JStr s) = raw_record (JStr s)
      \<and> get_field (raw_record (JStr s)) (js ''raw'') = Some (JStr s))
   \<or> (ToBoolean (parseModelReplyToJson (JStr s))
      \<and> (\<exists>pre t post. s = pre @ t @ post \<and> JSON_parse t = Some (parseModelReplyToJson (JStr s))))"
proof (cases "parseModelReplyToJson (JStr s) = raw_record (JStr s)")
  case True
  then show ?thesis by (simp add: raw_record_def)
next
  case False
  let ?t = "fence_stripped s"
  let ?sl = "slice ?t (indexOf ?t (CU CHR ''{'')) (lastIndexOf ?t (CU CHR ''}'') + 1)"
  show ?thesis
  proof (cases "ToBoolean (tryParse s)")
    case True
    then have r: "parseModelReplyToJson (JStr s) = tryParse s" by (rule normalize_direct)
    have "s = [] @ s @ []" by simp
    moreover have "JSON_parse s = Some (tryParse s)" using True by (rule tryParse_truthy)
    ultimately show ?thesis using True r by metis
  next
    case nd: False
    with False have c: "indexOf ?t (CU CHR ''{'') \<noteq> - 1" "lastIndexOf ?t (CU CHR ''}'') \<noteq> - 1"
      "lastIndexOf ?t (CU CHR ''}'') > indexOf ?t (CU CHR ''{'')" and tr: "ToBoolean (tryParse ?sl)"
      and r: "parseModelReplyToJson (JStr s) = tryParse ?sl"
      by (auto simp: normalize_string split: if_splits)
    from brace_span_decompose [OF c] obtain pre mid post where
      d: "?t = pre @ CU CHR ''{'' # mid @ CU CHR ''}'' # post" "?sl = CU CHR ''{'' # mid @ [CU CHR ''}'']"
      by blast
    obtain pre' post' where "s = pre' @ ?t @ post'" using fence_stripped_part by blast
    with d have "s = (pre' @ pre) @ ?sl @ (post @ post')" by simp
    moreover have "JSON_parse ?sl = Some (tryParse ?sl)" using tr by (rule tryParse_truthy)
    ultimately show ?thesis using tr r by metis
  qed
qed

text \<open>
  The amended C3 at the reply \<open>42\<close>: the result is not the sentinel, so it is a truthy
  value parsed from a part of the reply.
\<close>

theorem C3_witness:
  "ToBoolean (parseModelReplyToJson (JStr (js ''42'')))
   \<and> (\<exists>pre t post. js ''42'' = pre @ t @ post
          \<and> JSON_parse t = Some (parseModelReplyToJson (JStr (js ''42''))))"
proof -
  have "parseModelReplyToJson (JStr (js ''42'')) \<noteq> raw_record (JStr (js ''42''))"
    by code_simp
  with C3_normalizer_total [of "js ''42''"] show ?thesis by blast
qed

text \<open>
  C4, as stated, fails: in the reply \<open>```json [1] ```\<close> the direct parse fails, a
  json-tagged fence is found and its contents parse to the truthy array \<open>[1]\<close>, so the
  claim's second strategy succeeds; yet the function returns the sentinel. The contents of
  a fence are never parsed as they are.
\<close>

theorem C4_counterexample:
  "JSON_parse reply_fenced_array = None
   \<and> fence_match (js ''```json'') reply_fenced_array = Some (js '' [1] '')
   \<and> JSON_parse (js '' [1] '') = Some (JArr [JNum False 1 0])
   \<and> ToBoolean (JArr [JNum False 1 0])
   \<and> parseModelReplyToJson (JStr reply_fenced_array) = raw_record (JStr reply_fenced_array)"
  by code_simp

text \<open>
  C4, amended. The strategies, first match wins: (1) the direct parse of the whole reply,
  taken when truthy; (2) otherwise the working text \<open>fence_stripped\<close> is the group of the
  first json-tagged fence if there is one, else of the first fence, else the reply itself,
  and it is not parsed as it is; (3) when the working text has a \<open>{\<close> before a \<open>}\<close>,
  the span from its first \<open>{\<close> to its last \<open>}\<close> is parsed and taken when truthy;
  (4) in every other case the sentinel \<open>{ raw: reply }\<close>.
\<close>

theorem C4_strategy_order:
  "(ToBoolean (tryParse s) \<longrightarrow> parseModelReplyToJson (JStr s) = tryParse s)
   \<and> (\<forall>g. fence_match (js ''```json'') s = Some g \<longrightarrow> fence_stripped s = g)
   \<and> (\<forall>g. fence_match (js ''```json'') s = None \<and> fence_match (js ''```'') s = Some g
          \<longrightarrow> fence_stripped s = g)
   \<and> (fence_match (js ''```json'') s = None \<and> fence_match (js ''```'') s = None
          \<longrightarrow> fence_stripped s = s)
   \<and> (\<forall>pre mid post.
          \<not> ToBoolean (tryParse s)
          \<and> fence_stripped s = pre @ CU CHR ''{'' # mid @ CU CHR ''}'' # post
          \<and> CU CHR ''{'' \<notin> set pre \<and> CU CHR ''}'' \<notin> set post
          \<longrightarrow> parseModelReplyToJson (JStr s) =
                (if ToBoolean (tryParse (CU CHR ''{'' # mid @ [CU CHR ''}'']))
                 then tryParse (CU CHR ''{'' # mid @ [CU CHR ''}''])
                 else raw_record (JStr s)))
   \<and> (\<not> ToBoolean (tryParse s)
        \<and> \<not> (\<exists>pre mid post. fence_stripped s = pre @ CU CHR ''{'' # mid @ CU CHR ''}'' # post)
          \<longrightarrow> parseModelReplyToJson (JStr s) = raw_record (JStr s))"
proof (intro conjI allI impI)
  assume "ToBoolean (tryParse s)"
  then show "parseModelReplyToJson (JStr s) = tryParse s" by (rule normalize_direct)
next
  fix g assume "fence_match (js ''```json'') s = Some g"
  then show "fence_stripped s = g" by (simp add: fence_stripped_def)
next
  fix g assume "fence_match (js ''```json'') s = None \<and> fence_match (js ''```'') s = Some g"
  then show "fence_stripped s = g" by (simp add: fence_stripped_def)
next
  assume "fence_match (js ''```json'') s = None \<and> fence_match (js ''```'') s = None"
  then show "fence_stripped s = s" by (simp add: fence_stripped_def)
next
  fix pre mid post
  assume "\<not> ToBoolean (tryParse s)
          \<and> fence_stripped s = pre @ CU CHR ''{'' # mid @ CU CHR ''}'' # post
          \<and> CU CHR ''{'' \<notin> set pre \<and> CU CHR ''}'' \<notin> set post"
  then show "parseModelReplyToJson (JStr s) =
                (if ToBoolean (tryParse (CU CHR ''{'' # mid @ [CU CHR ''}'']))
                 then tryParse (CU CHR ''{'' # mid @ [CU CHR ''}''])
                 else raw_record (JStr s))"
    using normalize_span [of s pre mid post] by blast
next
  assume "\<not> ToBoolean (tryParse s)
        \<and> \<not> (\<exists>pre mid post. fence_stripped s = pre @ CU CHR ''{'' # mid @ CU CHR ''}'' # post)"
  then show "parseModelReplyToJson (JStr s) = raw_record (JStr s)"
    using normalize_no_span [of s] by blast
qed

text \<open>
  The amended C4 at three replies: a bare object (strategy 1), an object in a json fence
  with prose around it (strategies 2 and 3), and prose (the sentinel).
\<close>

theorem C4_witness:
  "parseModelReplyToJson (JStr (js ''{\"age\": 30}'')) = JObj [(js ''age'', JNum False 30 0)]
   \<and> parseModelReplyToJson (JStr reply_fenced_record) = JObj [(js ''age'', JNum False 30 0)]
   \<and> parseModelReplyToJson (JStr reply_prose) = raw_record (JStr reply_prose)"
proof -
  have 1: "ToBoolean (tryParse (js ''{\"age\": 30}''))"
    and 2: "tryParse (js ''{\"age\": 30}'') = JObj [(js ''age'', JNum False 30 0)]"
    by code_simp+
  have 3: "\<not> ToBoolean (tryParse reply_fenced_record)"
    and 4: "fence_match (js ''```json'') reply_fenced_record = Some (js '' {\"age\": 30} '')"
    and 5: "js '' {\"age\": 30} '' = js '' '' @ CU CHR ''{'' # js ''\"age\": 30'' @ CU CHR ''}'' # js '' ''"
    and 6: "CU CHR ''{'' \<notin> set (js '' '')" "CU CHR ''}'' \<notin> set (js '' '')"
    and 7: "CU CHR ''{'' # js ''\"age\": 30'' @ [CU CHR ''}''] = js ''{\"age\": 30}''"
    by code_simp+
  have 8: "\<not> ToBoolean (tryParse reply_prose)"
    and 9: "fence_match (js ''```json'') reply_prose = None" "fence_match (js ''```'') reply_prose = None"
    and 10: "CU CHR ''{'' \<notin> set reply_prose"
    by code_simp+
  from C4_strategy_order [of "js ''{\"age\": 30}''"] 1 2
  have a: "parseModelReplyToJson (JStr (js ''{\"age\": 30}'')) = JObj [(js ''age'', JNum False 30 0)]"
    by simp
  from C4_strategy_order [of reply_fenced_record] 4
  have "fence_stripped reply_fenced_record = js '' {\"age\": 30} ''" by blast
  with 5 have "fence_stripped reply_fenced_record
                 = js '' '' @ CU CHR ''{'' # js ''\"age\": 30'' @ CU CHR ''}'' # js '' ''" by simp
  with C4_strategy_order [of reply_fenced_record] 3 6
  have "parseModelReplyToJson (JStr reply_fenced_record) =
          (if ToBoolean (tryParse (CU CHR ''{'' # js ''\"age\": 30'' @ [CU CHR ''}'']))
           then tryParse (CU CHR ''{'' # js ''\"age\": 30'' @ [CU CHR ''}''])
           else raw_record (JStr reply_fenced_record))"
    by blast
  with 7 1 2 have b: "parseModelReplyToJson (JStr reply_fenced_record) = JObj [(js ''age'', JNum False 30 0)]"
    by simp
  from C4_strategy_order [of reply_prose] 9 have "fence_stripped reply_prose = reply_prose" by blast
  with 10 have "\<not> (\<exists>pre mid post. fence_stripped reply_prose = pre @ CU CHR ''{'' # mid @ CU CHR ''}'' # post)"
    by (metis in_set_conv_decomp)
  with C4_strategy_order [of reply_prose] 8
  have c: "parseModelReplyToJson (JStr reply_prose) = raw_record (JStr reply_prose)" by blast
  from a b c show ?thesis by simp
qed

text \<open>
  C5. For every reply text that \<open>JSON.parse\<close> parses to an object, and so for every
  reply that is a JSON object with the six fields of the schema, the normalizer returns that
  very object: every field is equal to the directly parsed one.
\<close>

theorem C5_roundtrip:
  assumes "JSON_parse s = Some (JObj fs)"
  shows "parseModelReplyToJson (JStr s) = JObj fs
         \<and> (\<forall>k\<in>set resume_fields. get_field (parseModelReplyToJson (JStr s)) k = map_of fs k)"
proof -
  from assms have "tryParse s = JObj fs" by (simp add: tryParse_def)
  then have "parseModelReplyToJson (JStr s) = JObj fs" by (simp add: normalize_direct)
  then show ?thesis by simp
qed

text \<open>
  C5 at a reply with exactly the six fields \<open>name, gender, age, education, phone, email\<close>.
\<close>

theorem C5_witness:
  "parseModelReplyToJson (JStr reply_record) =
     JObj [(js ''name'', JStr (js ''Zhang San'')), (js ''gender'', JNull),
           (js ''age'', JNum False 30 0), (js ''education'', JNull),
           (js ''phone'', JStr (js ''13800000000'')), (js ''email'', JNull)]
   \<and> map fst [(js ''name'', JStr (js ''Zhang San'')), (js ''gender'', JNull),
           (js ''age'', JNum False 30 0), (js ''education'', JNull),
           (js ''phone'', JStr (js ''13800000000'')), (js ''email'', JNull)] = resume_fields"
proof -
  have "JSON_parse reply_record =
     Some (JObj [(js ''name'', JStr (js ''Zhang San'')), (js ''gender'', JNull),
           (js ''age'', JNum False 30 0), (js ''education'', JNull),
           (js ''phone'', JStr (js ''13800000000'')), (js ''email'', JNull)])"
    by code_simp
  from C5_roundtrip [OF this] show ?thesis by (simp add: resume_fields_def)
qed

text \<open>
  C6, as stated, fails: the reply \<open>true\<close> has no brace, and the function returns the
  boolean \<open>true\<close>, which is not the sentinel and has no field \<open>raw\<close>.
\<close>

theorem C6_counterexample:
  "CU CHR ''{'' \<notin> set (js ''true'') \<and> CU CHR ''}'' \<notin> set (js ''true'')
   \<and> parseModelReplyToJson (JStr (js ''true'')) = JBool True
   \<and> parseModelReplyToJson (JStr (js ''true'')) \<noteq> raw_record (JStr (js ''true''))
   \<and> get_field (parseModelReplyToJson (JStr (js ''true''))) (js ''raw'') = None"
  by code_simp

text \<open>
  C6, amended. For every reply text without \<open>{\<close> and without \<open>}\<close> that is not itself
  the text of a truthy JSON value, the function returns the sentinel: the field \<open>raw\<close> is
  the reply, and the six structured fields are absent.
\<close>

theorem C6_no_braces_sentinel:
  assumes "CU CHR ''{'' \<notin> set s" and "CU CHR ''}'' \<notin> set s" and "\<not> ToBoolean (tryParse s)"
  shows "parseModelReplyToJson (JStr s) = raw_record (JStr s)
         \<and> get_field (parseModelReplyToJson (JStr s)) (js ''raw'') = Some (JStr s)
         \<and> (\<forall>k\<in>set resume_fields. get_field (parseModelReplyToJson (JStr s)) k = None)"
proof -
  have r: "parseModelReplyToJson (JStr s) = raw_record (JStr s)"
    using assms(3,1) by (rule normalize_no_open_brace)
  have "\<forall>k\<in>set resume_fields. k \<noteq> js ''raw''"
    by (simp add: resume_fields_def js_def)
  with r show ?thesis by (auto simp: raw_record_def)
qed

text \<open>
  The amended C6 at the reply of the claim, \<open>I could not read this resume.\<close>
\<close>

theorem C6_witness:
  "parseModelReplyToJson (JStr reply_prose) = raw_record (JStr reply_prose)
   \<and> get_field (parseModelReplyToJson (JStr reply_prose)) (js ''raw'') = Some (JStr reply_prose)
   \<and> get_field (parseModelReplyToJson (JStr reply_prose)) (js ''name'') = None"
proof -
  have "CU CHR ''{'' \<notin> set reply_prose" "CU CHR ''}'' \<notin> set reply_prose"
    "\<not> ToBoolean (tryParse reply_prose)"
    by code_simp+
  from C6_no_braces_sentinel [OF this] show ?thesis
    by (simp add: resume_fields_def raw_record_def js_def)
qed

text \<open>
  C7, as stated, fails on its last part. The file is read before the extension is looked
  at, so for a path with another extension whose file cannot be read the extractor fails
  with the read error instead of returning the empty string.
\<close>

theorem C7_counterexample:
  "toLowerCase (extname (win32 env_no_files) (js ''notes.txt'')) = js ''.txt''
   \<and> extractTextFromResumeFile env_no_files (js ''notes.txt'')
       = Inl (ReadFileError (js ''notes.txt''))"
  by code_simp

text \<open>
  C7, amended. The extractor first reads the file, and fails with the read error when the
  file cannot be read, whatever the extension. When the file can be read, it dispatches on
  the extension of the path without regard to letter case: \<open>.pdf\<close> goes to the PDF text
  extraction, \<open>.docx\<close> to the DOCX raw text extraction, with the result or the error of
  that decoder, and every other extension gives the empty string.
\<close>

theorem C7_dispatch:
  "(\<forall>e. readFile env p = Inl e \<longrightarrow> extractTextFromResumeFile env p = Inl e)
   \<and> (\<forall>buffer. readFile env p = Inr buffer \<longrightarrow>
        (ci_equal (extname (win32 env) p) (js ''.pdf'')
           \<longrightarrow> extractTextFromResumeFile env p = pdf env buffer)
      \<and> (ci_equal (extname (win32 env) p) (js ''.docx'')
           \<longrightarrow> extractTextFromResumeFile env p = extractRawText env buffer)
      \<and> (\<not> ci_equal (extname (win32 env) p) (js ''.pdf'')
         \<and> \<not> ci_equal (extname (win32 env) p) (js ''.docx'')
           \<longrightarrow> extractTextFromResumeFile env p = Inr []))"
proof (intro conjI allI impI)
  fix e assume "readFile env p = Inl e"
  then show "extractTextFromResumeFile env p = Inl e"
    by (simp add: extractTextFromResumeFile_def)
next
  fix buffer assume r: "readFile env p = Inr buffer"
    and c: "ci_equal (extname (win32 env) p) (js ''.pdf'')"
  from c have "toLowerCase (extname (win32 env) p) = js ''.pdf''" by (simp add: lower_pdf)
  with r show "extractTextFromResumeFile env p = pdf env buffer"
    by (simp add: extractTextFromResumeFile_def split: sum.splits)
next
  fix buffer assume r: "readFile env p = Inr buffer"
    and c: "ci_equal (extname (win32 env) p) (js ''.docx'')"
  from c have "toLowerCase (extname (win32 env) p) = js ''.docx''" by (simp add: lower_docx)
  moreover from c have "toLowerCase (extname (win32 env) p) \<noteq> js ''.pdf''"
    using not_both [of "extname (win32 env) p"] by (simp add: lower_pdf)
  ultimately show "extractTextFromResumeFile env p = extractRawText env buffer"
    using r by (simp add: extractTextFromResumeFile_def split: sum.splits)
next
  fix buffer assume r: "readFile env p = Inr buffer"
    and c: "\<not> ci_equal (extname (win32 env) p) (js ''.pdf'')
         \<and> \<not> ci_equal (extname (win32 env) p) (js ''.docx'')"
  from c have "toLowerCase (extname (win32 env) p) \<noteq> js ''.pdf''"
    "toLowerCase (extname (win32 env) p) \<noteq> js ''.docx''"
    by (simp_all add: lower_pdf lower_docx)
  with r show "extractTextFromResumeFile env p = Inr []"
    by (simp add: extractTextFromResumeFile_def)
qed

text \<open>
  The amended C7 at \<open>CV.PDF\<close> and \<open>cv.pdf\<close> (the same decoder), \<open>cv.Docx\<close>,
  \<open>notes.txt\<close>, and an unreadable \<open>cv.pdf\<close>.
\<close>

theorem C7_witness:
  "extractTextFromResumeFile env_ok (js ''CV.PDF'') = Inr (js ''resume text'')
   \<and> extractTextFromResumeFile env_ok (js ''cv.pdf'') = Inr (js ''resume text'')
   \<and> extractTextFromResumeFile env_ok (js ''cv.Docx'') = Inr (js ''resume text'')
   \<and> extractTextFromResumeFile env_ok (js ''notes.txt'') = Inr []
   \<and> extractTextFromResumeFile env_no_files (js ''cv.pdf'') = Inl (ReadFileError (js ''cv.pdf''))"
proof -
  have r: "readFile env_ok (js ''CV.PDF'') = Inr []" "readFile env_ok (js ''cv.pdf'') = Inr []"
    "readFile env_ok (js ''cv.Docx'') = Inr []" "readFile env_ok (js ''notes.txt'') = Inr []"
    "readFile env_no_files (js ''cv.pdf'') = Inl (ReadFileError (js ''cv.pdf''))"
    by (simp_all add: env_ok_def env_no_files_def)
  have d: "pdf env_ok [] = Inr (js ''resume text'')" "extractRawText env_ok [] = Inr (js ''resume text'')"
    by (simp_all add: env_ok_def)
  have c: "ci_equal (extname (win32 env_ok) (js ''CV.PDF'')) (js ''.pdf'')"
    "ci_equal (extname (win32 env_ok) (js ''cv.pdf'')) (js ''.pdf'')"
    "ci_equal (extname (win32 env_ok) (js ''cv.Docx'')) (js ''.docx'')"
    "\<not> ci_equal (extname (win32 env_ok) (js ''notes.txt'')) (js ''.pdf'')"
    "\<not> ci_equal (extname (win32 env_ok) (js ''notes.txt'')) (js ''.docx'')"
    by code_simp+
  from C7_dispatch [of env_ok "js ''CV.PDF''"] r(1) c(1) d(1)
  have 1: "extractTextFromResumeFile env_ok (js ''CV.PDF'') = Inr (js ''resume text'')" by simp
  from C7_dispatch [of env_ok "js ''cv.pdf''"] r(2) c(2) d(1)
  have 2: "extractTextFromResumeFile env_ok (js ''cv.pdf'') = Inr (js ''resume text'')" by simp
  from C7_dispatch [of env_ok "js ''cv.Docx''"] r(3) c(3) d(2)
  have 3: "extractTextFromResumeFile env_ok (js ''cv.Docx'') = Inr (js ''resume text'')" by simp
  from C7_dispatch [of env_ok "js ''notes.txt''"] r(4) c(4,5)
  have 4: "extractTextFromResumeFile env_ok (js ''notes.txt'') = Inr []" by simp
  from C7_dispatch [of env_no_files "js ''cv.pdf''"] r(5)
  have 5: "extractTextFromResumeFile env_no_files (js ''cv.pdf'') = Inl (ReadFileError (js ''cv.pdf''))"
    by simp
  from 1 2 3 4 5 show ?thesis by simp
qed

text \<open>
  C8. When the model, the context and the chat session are loaded, \<open>initModel\<close> does
  nothing: no load, and the state, effects included, is unchanged. So of two consecutive
  calls, the first of which starts without a session and succeeds, the second is a no-op
  (in any world \<open>env'\<close>) and the two together call \<open>loadModel\<close> exactly once.
\<close>

theorem C8_initModel_idempotent:
  "(loaded s \<longrightarrow> initModel env s = (Inr (), s))
   \<and> (\<forall>s1. \<not> loaded s \<and> initModel env s = (Inr (), s1) \<longrightarrow>
          loaded s1 \<and> initModel env' s1 = (Inr (), s1)
          \<and> model_loads (snd (initModel env' s1)) = model_loads s + 1)"
proof -
  have a: "loaded s \<longrightarrow> initModel env s = (Inr (), s)"
    by (simp add: initModel_loaded)
  have b: "loaded s1 \<and> initModel env' s1 = (Inr (), s1)
          \<and> model_loads (snd (initModel env' s1)) = model_loads s + 1"
    if "\<not> loaded s \<and> initModel env s = (Inr (), s1)" for s1
  proof -
    from that have l: "loaded s1" and m: "model_loads s1 = model_loads s + 1"
      using initModel_success [of s env s1] by simp_all
    from l have i: "initModel env' s1 = (Inr (), s1)" by (rule initModel_loaded)
    from l i m show ?thesis by simp
  qed
  from a b show ?thesis by blast
qed

text \<open>
  C8 at the initial state, in a world where everything works.
\<close>

theorem C8_witness:
  "\<not> loaded initial_state
   \<and> loaded (snd (initModel env_ok initial_state))
   \<and> initModel env_ok (snd (initModel env_ok initial_state))
       = (Inr (), snd (initModel env_ok initial_state))
   \<and> model_loads (snd (initModel env_ok (snd (initModel env_ok initial_state)))) = 1"
proof -
  define s1 where "s1 = snd (initModel env_ok initial_state)"
  have 1: "\<not> loaded initial_state" by code_simp
  have "fst (initModel env_ok initial_state) = Inr ()" by code_simp
  then have 2: "initModel env_ok initial_state = (Inr (), s1)"
    unfolding s1_def by (metis prod.collapse)
  have 3: "model_loads initial_state + 1 = 1" by code_simp
  from C8_initModel_idempotent [of initial_state env_ok env_ok]
  have "\<forall>s1. \<not> loaded initial_state \<and> initModel env_ok initial_state = (Inr (), s1) \<longrightarrow>
          loaded s1 \<and> initModel env_ok s1 = (Inr (), s1)
          \<and> model_loads (snd (initModel env_ok s1)) = model_loads initial_state + 1"
    by (rule conjunct2)
  with 1 2 have a: "loaded s1" and b: "initModel env_ok s1 = (Inr (), s1)"
    and c: "model_loads (snd (initModel env_ok s1)) = model_loads initial_state + 1"
    by blast+
  from c 3 have c': "model_loads (snd (initModel env_ok s1)) = 1" by (rule trans)
  from 1 a b c' show ?thesis unfolding s1_def by (intro conjI)
qed

text \<open>
  C9. Whatever the handler is called with and however it ends, every prompt it submits
  comes right after a reset of the chat history and finds the history empty; and a batch
  that completes has submitted one prompt for each of its documents.
\<close>

theorem C9_reset_before_prompt:
  "\<exists>new. effects (snd (parse_resume_pdf env s arg)) = effects s @ new
     \<and> (\<forall>k<length new. \<forall>h p. new ! k = EPrompt h p \<longrightarrow>
           h = [] \<and> 0 < k \<and> new ! (k - 1) = EResetChatHistory)
     \<and> (\<forall>paths. choose_paths env arg = Inr (Some paths)
           \<and> fst (parse_resume_pdf env s arg) = Inr Completed
           \<longrightarrow> length (filter is_prompt new) = length paths)"
proof -
  have ce: "fresh_prompts [EConsoleError]" "filter is_prompt [EConsoleError] = []"
    by (simp_all add: fresh_prompts_def)
  show ?thesis
  proof (cases "choose_paths env arg")
    case (Inl e)
    then have "effects (snd (parse_resume_pdf env s arg)) = effects s @ [EConsoleError]"
      and "fst (parse_resume_pdf env s arg) = Inl e"
      by (simp_all add: handler_stages emit_def)
    with ce Inl show ?thesis
      unfolding fresh_prompts_def by (intro exI [of _ "[EConsoleError]"]) simp
  next
    case (Inr x)
    show ?thesis
    proof (cases x)
      case None
      with Inr have "effects (snd (parse_resume_pdf env s arg)) = effects s @ []"
        by (simp add: handler_stages)
      with Inr None show ?thesis by (intro exI [of _ "[]"]) simp
    next
      case (Some ps)
      obtain r0 s0 where i: "initModel env s = (r0, s0)" by (cases "initModel env s")
      from initModel_effects [of env s] i obtain n0 where
        n0: "effects s0 = effects s @ n0" "is_session_free n0" by auto
      have f0: "fresh_prompts n0" using n0(2) by (rule session_free_fresh)
      have c0: "filter is_prompt n0 = []"
        using n0(2) unfolding is_session_free_def by (simp add: filter_empty_conv)
      show ?thesis
      proof (cases r0)
        case (Inl e)
        with Inr Some i n0 have a: "effects (snd (parse_resume_pdf env s arg)) = effects s @ (n0 @ [EConsoleError])"
          and b: "fst (parse_resume_pdf env s arg) = Inl e"
          by (simp_all add: handler_stages emit_def)
        have "fresh_prompts (n0 @ [EConsoleError])" using f0 ce(1) by (rule fresh_prompts_append)
        with a b show ?thesis
          unfolding fresh_prompts_def by (intro exI [of _ "n0 @ [EConsoleError]"]) simp
      next
        case r0: (Inr u)
        obtain r1 s1 where l: "process_files env 0 ps s0 = (r1, s1)"
          by (cases "process_files env 0 ps s0")
        from process_files_fresh [of env 0 ps s0] l obtain n1 where
          n1: "effects s1 = effects s0 @ n1" "fresh_prompts n1" by auto
        have f01: "fresh_prompts (n0 @ n1)" using f0 n1(2) by (rule fresh_prompts_append)
        show ?thesis
        proof (cases r1)
          case (Inl e)
          with Inr Some i r0 l n0 n1
          have a: "effects (snd (parse_resume_pdf env s arg)) = effects s @ ((n0 @ n1) @ [EConsoleError])"
            and b: "fst (parse_resume_pdf env s arg) = Inl e"
            by (simp_all add: handler_stages emit_def)
          have "fresh_prompts ((n0 @ n1) @ [EConsoleError])"
            using f01 ce(1) by (rule fresh_prompts_append)
          with a b show ?thesis
            unfolding fresh_prompts_def by (intro exI [of _ "(n0 @ n1) @ [EConsoleError]"]) simp
        next
          case r1: (Inr u')
          with Inr Some i r0 l n0 n1
          have a: "effects (snd (parse_resume_pdf env s arg)) = effects s @ (n0 @ n1)"
            by (simp add: handler_stages)
          from l r1 have "fst (process_files env 0 ps s0) = Inr u'" by simp
          from process_files_prompts [OF this] l obtain n1' where
            "effects s1 = effects s0 @ n1'" "length (filter is_prompt n1') = length ps" by auto
          with n1(1) have "length (filter is_prompt n1) = length ps" by simp
          with c0 have c: "length (filter is_prompt (n0 @ n1)) = length ps" by simp
          from a f01 c Inr Some show ?thesis
            unfolding fresh_prompts_def by (intro exI [of _ "n0 @ n1"]) simp
        qed
      qed
    qed
  qed
qed

text \<open>
  C9 at a batch of three files: the first prompt is the effect at index 4, the reset is at
  index 3.
\<close>

theorem C9_witness:
  "effects (snd (parse_resume_pdf env_ok initial_state (Some three_files))) ! 3 = EResetChatHistory
   \<and> (\<exists>p. effects (snd (parse_resume_pdf env_ok initial_state (Some three_files))) ! 4 = EPrompt [] p)
   \<and> length (filter is_prompt (effects (snd (parse_resume_pdf env_ok initial_state (Some three_files))))) = 3"
proof -
  let ?E = "effects (snd (parse_resume_pdf env_ok initial_state (Some three_files)))"
  from C9_reset_before_prompt [of env_ok initial_state "Some three_files"] obtain new where
    n: "?E = effects initial_state @ new"
    and f: "\<forall>k<length new. \<forall>h p. new ! k = EPrompt h p \<longrightarrow>
           h = [] \<and> 0 < k \<and> new ! (k - 1) = EResetChatHistory"
    and c: "\<forall>paths. choose_paths env_ok (Some three_files) = Inr (Some paths)
           \<and> fst (parse_resume_pdf env_ok initial_state (Some three_files)) = Inr Completed
           \<longrightarrow> length (filter is_prompt new) = length paths"
    by blast
  have "effects initial_state = []" by (simp add: initial_state_def)
  with n have e: "new = ?E" by simp
  have 1: "choose_paths env_ok (Some three_files) = Inr (Some three_files)" by code_simp
  have 2: "fst (parse_resume_pdf env_ok initial_state (Some three_files)) = Inr Completed"
    by code_simp
  have 3: "length three_files = 3" by (simp add: three_files_def)
  have 4: "4 < length ?E" and 5: "is_prompt (?E ! 4)" by code_simp+
  from 5 obtain h p where hp: "?E ! 4 = EPrompt h p" by (cases "?E ! 4") auto
  from f [rule_format, of 4 h p] e 4 hp have "h = []" "?E ! (4 - 1) = EResetChatHistory" by simp_all
  moreover from c 1 2 3 e have "length (filter is_prompt ?E) = 3" by simp
  ultimately show ?thesis using hp by simp
qed

text \<open>
  C10. For every reply text that is valid JSON and parses to a falsy value, the parsed
  value is not returned: the fallback chain goes on and ends in the sentinel
  \<open>{ raw: reply }\<close>.
\<close>

theorem C10_falsy_parse_not_returned:
  assumes "JSON_parse s = Some v" and "\<not> ToBoolean v"
  shows "parseModelReplyToJson (JStr s) = raw_record (JStr s) \<and> parseModelReplyToJson (JStr s) \<noteq> v"
proof -
  from assms have tp: "\<not> ToBoolean (tryParse s)" by (simp add: tryParse_def)
  have "CU CHR ''{'' \<notin> set s" using assms by (rule JSON_parse_falsy)
  with tp have r: "parseModelReplyToJson (JStr s) = raw_record (JStr s)"
    by (rule normalize_no_open_brace)
  moreover have "ToBoolean (raw_record (JStr s))" by (simp add: raw_record_def)
  ultimately show ?thesis using assms(2) by auto
qed

text \<open>
  C10 at the four texts of the claim: \<open>null\<close>, \<open>false\<close>, \<open>0\<close> and \<open>""\<close>.
\<close>

theorem C10_witness:
  "parseModelReplyToJson (JStr (js ''null'')) = JObj [(js ''raw'', JStr (js ''null''))]
   \<and> parseModelReplyToJson (JStr (js ''false'')) = JObj [(js ''raw'', JStr (js ''false''))]
   \<and> parseModelReplyToJson (JStr (js ''0'')) = JObj [(js ''raw'', JStr (js ''0''))]
   \<and> parseModelReplyToJson (JStr (js ''\"\"'')) = JObj [(js ''raw'', JStr (js ''\"\"''))]"
proof -
  have 1: "JSON_parse (js ''null'') = Some JNull" "\<not> ToBoolean JNull"
    and 2: "JSON_parse (js ''false'') = Some (JBool False)" "\<not> ToBoolean (JBool False)"
    and 3: "JSON_parse (js ''0'') = Some (JNum False 0 0)" "\<not> ToBoolean (JNum False 0 0)"
    and 4: "JSON_parse (js ''\"\"'') = Some (JStr [])" "\<not> ToBoolean (JStr [])"
    by code_simp+
  from C10_falsy_parse_not_returned [OF 1] C10_falsy_parse_not_returned [OF 2]
    C10_falsy_parse_not_returned [OF 3] C10_falsy_parse_not_returned [OF 4]
  show ?thesis by (simp add: raw_record_def)
qed

end
